theory Spec2Isabelle
  imports Main "HOL-Library.AList" "HOL-Library.Sublist"
begin

section \<open>Data model of \<^verbatim>\<open>introspectMachine.ts\<close>\<close>

text \<open>
  The TypeScript source walks an XState \<^verbatim>\<open>StateNode\<close> tree.  Only the fields that the
  source reads are modelled.  JavaScript objects used as dictionaries (\<^verbatim>\<open>nodeMap\<close>,
  \<^verbatim>\<open>ItemMap.map\<close>, \<^verbatim>\<open>SubState.states\<close>) are association lists in insertion order:
  assigning to an existing key keeps the key's position, assigning to a new key appends
  it (\<open>AList.update\<close>).  A \<^verbatim>\<open>Set<string>\<close> is a duplicate-free list in insertion order.
  Keys that are canonical array indices or names of \<^verbatim>\<open>Object.prototype\<close> members are
  outside this model.
\<close>

datatype error =
  StateNodeNotFound string  \<comment> \<open>\<^verbatim>\<open>getStateNodeById\<close> throws: no node under this id\<close>
| TypeError                 \<comment> \<open>property read on \<^verbatim>\<open>undefined\<close>, as in \<^verbatim>\<open>nodeMap[id].sources\<close>\<close>

text \<open>A branch of the \<^verbatim>\<open>xstate.choose\<close> action: \<^verbatim>\<open>{cond, actions}\<close>.  A component is
  \<open>Some s\<close> exactly when \<^verbatim>\<open>typeof\<close> gives \<^verbatim>\<open>"string"\<close>.\<close>

datatype CondActions =
  ActionArray "string option list"   \<comment> \<open>\<^verbatim>\<open>Array.isArray(condActions)\<close>\<close>
| ActionString string                \<comment> \<open>\<^verbatim>\<open>typeof condActions === "string"\<close>\<close>
| ActionOther

record ChooseCond =
  cc_cond :: "string option"
  cc_actions :: CondActions

record ActionObject =
  a_type :: string
  a_exec :: bool                       \<comment> \<open>\<^verbatim>\<open>action.exec\<close> is truthy\<close>
  a_conds :: "ChooseCond list option"  \<comment> \<open>\<open>Some\<close> when \<^verbatim>\<open>Array.isArray(action.conds)\<close>\<close>

text \<open>A transition target is a resolved \<^verbatim>\<open>StateNode\<close> object; the source reads its
  \<^verbatim>\<open>id\<close> and its \<^verbatim>\<open>invoke\<close> list (the \<^verbatim>\<open>src\<close> of each invocation, \<open>Some\<close> when it is a
  string).\<close>

record TargetNode =
  t_id :: string
  t_invoke :: "string option list"

record TransitionDefinition =
  eventType :: string
  target :: "TargetNode list"      \<comment> \<open>\<^verbatim>\<open>undefined\<close> is the empty list\<close>
  cond :: "string option"          \<comment> \<open>\<^verbatim>\<open>transition.cond.name\<close> when \<^verbatim>\<open>transition.cond\<close> is set\<close>
  actions_t :: "ActionObject list"

record StateNode =
  sn_id :: string
  sn_key :: string
  sn_path :: "string list"
  sn_parent :: "string list option"
     \<comment> \<open>\<open>None\<close>: no parent; \<open>Some ids\<close>: the ids of \<^verbatim>\<open>parent.initialStateNodes\<close>\<close>
  sn_states :: "string list"          \<comment> \<open>ids of \<^verbatim>\<open>Object.values(node.states)\<close>\<close>
  sn_transitions :: "TransitionDefinition list"
  sn_onEntry :: "ActionObject list"
  sn_onExit :: "ActionObject list"
  sn_invoke :: "string option list"   \<comment> \<open>\<^verbatim>\<open>service.src\<close>, \<open>Some\<close> when a string\<close>
  sn_activities :: "string list"      \<comment> \<open>\<^verbatim>\<open>activity.type\<close>\<close>
  sn_after :: "string option list"    \<comment> \<open>\<^verbatim>\<open>delay\<close>, \<open>Some\<close> when a string\<close>

text \<open>\<^verbatim>\<open>machine.options\<close>: one implementations table per category, from names to
  values.  A value is a function or an object, a string (a service may be given by name)
  or a number (a delay in milliseconds).  The source reads a table only through
  \<^verbatim>\<open>Boolean(machine.options.<category>[name])\<close>, which is false for a missing key, for the
  number \<open>0\<close> and for the empty string.\<close>

datatype Implementation =
  Callable              \<comment> \<open>a function or an object: always truthy\<close>
| NumberValue int
| StringValue string

fun truthy :: "Implementation \<Rightarrow> bool" where
  "truthy Callable = True"
| "truthy (NumberValue n) = (n \<noteq> 0)"
| "truthy (StringValue s) = (s \<noteq> [])"

definition implemented :: "(string \<rightharpoonup> Implementation) \<Rightarrow> string \<Rightarrow> bool" where
  "implemented table name = (case table name of None \<Rightarrow> False | Some v \<Rightarrow> truthy v)"

record MachineOptions =
  guards_impl :: "string \<rightharpoonup> Implementation"
  actions_impl :: "string \<rightharpoonup> Implementation"
  services_impl :: "string \<rightharpoonup> Implementation"
  activities_impl :: "string \<rightharpoonup> Implementation"
  delays_impl :: "string \<rightharpoonup> Implementation"

text \<open>The machine is the root \<^verbatim>\<open>StateNode\<close> together with the members every XState
  machine offers: \<^verbatim>\<open>stateIds\<close>, \<^verbatim>\<open>getStateNodeById\<close> (\<open>None\<close> where XState throws) and
  \<^verbatim>\<open>options\<close>.\<close>

record Machine =
  m_root :: StateNode
  stateIds :: "string list"
  getStateNodeById :: "string \<Rightarrow> StateNode option"
  options :: MachineOptions

text \<open>The helpers imported from \<^verbatim>\<open>./getTransitionsFromNode\<close> are not part of the
  sources at hand; they are parameters of the model.\<close>

record Helpers =
  getTransitionsFromNode :: "StateNode \<Rightarrow> string list"
  getMatchesStates :: "Machine \<Rightarrow> string list list"

subsection \<open>State values and their JSON encoding\<close>

text \<open>\<^verbatim>\<open>pathToStateValue\<close> of \<^verbatim>\<open>xstate/lib/utils\<close> returns the single key for a path of
  length one and otherwise a fresh object nesting the keys: \<^verbatim>\<open>{}\<close> for the empty path,
  \<^verbatim>\<open>{a: "b"}\<close> for \<^verbatim>\<open>["a", "b"]\<close>, \<^verbatim>\<open>{a: {b: "c"}}\<close> for \<^verbatim>\<open>["a", "b", "c"]\<close>.\<close>

datatype StateValue =
  SVString string
| SVEmpty
| SVNested string StateValue

fun pathToStateValue :: "string list \<Rightarrow> StateValue" where
  "pathToStateValue [] = SVEmpty"
| "pathToStateValue [k] = SVString k"
| "pathToStateValue (k # k' # ks) = SVNested k (pathToStateValue (k' # ks))"

definition hex_digit :: "nat \<Rightarrow> char" where
  "hex_digit n = (if n < 10 then char_of (48 + n) else char_of (87 + n))"

definition json_escape :: "char \<Rightarrow> string" where
  "json_escape c =
     (if c = CHR 0x22 then [CHR 0x5C, CHR 0x22]
      else if c = CHR 0x5C then [CHR 0x5C, CHR 0x5C]
      else if c = CHR 0x08 then [CHR 0x5C, CHR ''b'']
      else if c = CHR 0x0C then [CHR 0x5C, CHR ''f'']
      else if c = CHR 0x0A then [CHR 0x5C, CHR ''n'']
      else if c = CHR 0x0D then [CHR 0x5C, CHR ''r'']
      else if c = CHR 0x09 then [CHR 0x5C, CHR ''t'']
      else if (of_char c :: nat) < 32
        then [CHR 0x5C, CHR ''u'', CHR ''0'', CHR ''0'',
              hex_digit (of_char c div 16), hex_digit (of_char c mod 16)]
      else [c])"

definition json_quote :: "string \<Rightarrow> string" where
  "json_quote s = [CHR 0x22] @ concat (map json_escape s) @ [CHR 0x22]"

fun JSON_stringify :: "StateValue \<Rightarrow> string" where
  "JSON_stringify (SVString s) = json_quote s"
| "JSON_stringify SVEmpty = ''{}''"
| "JSON_stringify (SVNested k v) = ''{'' @ json_quote k @ '':'' @ JSON_stringify v @ ''}''"

subsection \<open>Sets in insertion order\<close>

definition set_add :: "string \<Rightarrow> string list \<Rightarrow> string list" where
  "set_add x xs = (if x \<in> set xs then xs else xs @ [x])"

text \<open>A \<^verbatim>\<open>Set<StateValue>\<close> compares strings by value and objects by identity; every object
  that \<^verbatim>\<open>pathToStateValue\<close> returns is fresh, so it is always added.\<close>

definition states_add :: "StateValue \<Rightarrow> StateValue list \<Rightarrow> StateValue list" where
  "states_add v vs =
     (case v of
        SVString s \<Rightarrow> (if v \<in> set vs then vs else vs @ [v])
      | _ \<Rightarrow> vs @ [v])"

section \<open>The class \<^verbatim>\<open>ItemMap\<close>\<close>

record ItemEntry =
  events :: "string list"
  states :: "StateValue list"

record ItemMap =
  im_map :: "(string \<times> ItemEntry) list"
  checkIfOptional :: "string \<Rightarrow> bool"

definition new_ItemMap :: "(string \<Rightarrow> bool) \<Rightarrow> ItemMap" where
  "new_ItemMap f = \<lparr>im_map = [], checkIfOptional = f\<rparr>"

definition addItem :: "string \<Rightarrow> string list \<Rightarrow> ItemMap \<Rightarrow> ItemMap" where
  "addItem itemName nodePath im =
     (let m1 = (case map_of (im_map im) itemName of
                  None \<Rightarrow> im_map im @ [(itemName, \<lparr>events = [], states = []\<rparr>)]
                | Some _ \<Rightarrow> im_map im)
      in im\<lparr>im_map :=
            AList.map_entry itemName
              (\<lambda>e. e\<lparr>states := states_add (pathToStateValue nodePath) (states e)\<rparr>) m1\<rparr>)"

definition addEventToItem :: "string \<Rightarrow> string \<Rightarrow> string list \<Rightarrow> ItemMap \<Rightarrow> ItemMap" where
  "addEventToItem itemName evt nodePath im =
     (let im1 = addItem itemName nodePath im
      in im1\<lparr>im_map :=
            AList.map_entry itemName (\<lambda>e. e\<lparr>events := set_add evt (events e)\<rparr>) (im_map im1)\<rparr>)"

record Line =
  l_name :: string
  l_required :: bool
  l_events :: "string list"
  l_states :: "string list"

record DataShape =
  lines :: "Line list"
  required :: bool

definition has_dot :: "string \<Rightarrow> bool" where
  "has_dot name = (CHR ''.'' \<in> set name)"   \<comment> \<open>\<^verbatim>\<open>/\./.test(name)\<close>\<close>

definition toLine :: "(string \<Rightarrow> bool) \<Rightarrow> string \<times> ItemEntry \<Rightarrow> Line" where
  "toLine opt = (\<lambda>(name, data).
     \<lparr>l_name = name,
      l_required = (\<not> opt name),
      l_events = events data,
      l_states = filter (\<lambda>s. s \<noteq> []) (map JSON_stringify (states data))\<rparr>)"

definition toDataShape :: "ItemMap \<Rightarrow> DataShape" where
  "toDataShape im =
     (let kept = filter (\<lambda>(name, data). \<not> has_dot name) (im_map im);
          ls = map (toLine (checkIfOptional im)) kept
      in \<lparr>lines = ls,
          required = list_ex (\<lambda>(name, data). \<not> checkIfOptional im name) kept\<rparr>)"

section \<open>The traversal of \<^verbatim>\<open>introspectMachine\<close>\<close>

record NodeEntry =
  sources :: "string list"
  children :: "string list"

text \<open>The local variables of \<^verbatim>\<open>introspectMachine\<close> that the traversal mutates.\<close>

record WalkState =
  nodeMap :: "(string \<times> NodeEntry) list"
  guards :: ItemMap
  actions :: ItemMap
  services :: ItemMap
  activities :: ItemMap
  delays :: ItemMap

text \<open>\<^verbatim>\<open>forEach\<close> with a callback that cannot throw is \<open>fold\<close>; with a callback that can
  throw, the first exception ends the loop.\<close>

fun forEach_err :: "('a \<Rightarrow> 's \<Rightarrow> error + 's) \<Rightarrow> 'a list \<Rightarrow> 's \<Rightarrow> error + 's" where
  "forEach_err f [] s = Inr s"
| "forEach_err f (x # xs) s =
     (case f x s of Inl e \<Rightarrow> Inl e | Inr s' \<Rightarrow> forEach_err f xs s')"

definition xstateRegex_test :: "string \<Rightarrow> bool" where
  "xstateRegex_test s = prefix ''xstate.'' s"   \<comment> \<open>\<^verbatim>\<open>/^xstate\./\<close>\<close>

fun allStateNodes :: "Machine \<Rightarrow> string list \<Rightarrow> error + StateNode list" where
  "allStateNodes machine [] = Inr []"
| "allStateNodes machine (i # ids) =
     (case getStateNodeById machine i of
        None \<Rightarrow> Inl (StateNodeNotFound i)
      | Some node \<Rightarrow>
          (case allStateNodes machine ids of
             Inl e \<Rightarrow> Inl e
           | Inr nodes \<Rightarrow> Inr (node # nodes)))"

definition initNodeMap :: "StateNode list \<Rightarrow> (string \<times> NodeEntry) list" where
  "initNodeMap nodes =
     fold (\<lambda>node nm. AList.update (sn_id node) \<lparr>sources = [], children = []\<rparr> nm) nodes []"

definition is_initial :: "StateNode \<Rightarrow> bool" where
  "is_initial node =
     (case sn_parent node of
        None \<Rightarrow> True
      | Some initialStateNodes \<Rightarrow> sn_id node \<in> set initialStateNodes)"

definition addInit :: "string list \<Rightarrow> string option \<Rightarrow> ItemMap \<Rightarrow> ItemMap" where
  "addInit p x im =
     (case x of Some s \<Rightarrow> addEventToItem s ''xstate.init'' p im | None \<Rightarrow> im)"

definition addOccurrence :: "string list \<Rightarrow> string option \<Rightarrow> ItemMap \<Rightarrow> ItemMap" where
  "addOccurrence p x im = (case x of Some s \<Rightarrow> addItem s p im | None \<Rightarrow> im)"

text \<open>Lines 156--181: the node is an initial state of its parent, or the root.\<close>

definition walkInitial :: "StateNode \<Rightarrow> WalkState \<Rightarrow> WalkState" where
  "walkInitial node st =
     (if is_initial node then
        st\<lparr>services := fold (addInit (sn_path node)) (sn_invoke node) (services st),
           actions :=
             fold (\<lambda>a im. if a_type a \<noteq> [] then
                              addEventToItem (a_type a) ''xstate.init'' (sn_path node) im
                            else im)
               (sn_onEntry node) (actions st),
           delays := fold (addInit (sn_path node)) (sn_after node) (delays st)\<rparr>
      else st)"

text \<open>Lines 183--185.\<close>

definition addChild :: "StateNode \<Rightarrow> string \<Rightarrow> WalkState \<Rightarrow> error + WalkState" where
  "addChild node childId st =
     (case map_of (nodeMap st) (sn_id node) of
        None \<Rightarrow> Inl TypeError
      | Some _ \<Rightarrow>
          Inr (st\<lparr>nodeMap :=
                 AList.map_entry (sn_id node)
                   (\<lambda>e. e\<lparr>children := set_add childId (children e)\<rparr>) (nodeMap st)\<rparr>))"

text \<open>Lines 189--204.\<close>

definition walkOccurrences :: "StateNode \<Rightarrow> WalkState \<Rightarrow> WalkState" where
  "walkOccurrences node st =
     st\<lparr>activities :=
          fold (\<lambda>t im. if t \<noteq> [] \<and> t \<noteq> ''xstate.invoke'' then addItem t (sn_path node) im
                        else im)
            (sn_activities node) (activities st),
        delays := fold (addOccurrence (sn_path node)) (sn_after node) (delays st),
        services := fold (addOccurrence (sn_path node)) (sn_invoke node) (services st)\<rparr>"

text \<open>Lines 207--211.\<close>

definition addSource :: "TransitionDefinition \<Rightarrow> TargetNode \<Rightarrow> WalkState \<Rightarrow> error + WalkState" where
  "addSource transition targetNode st =
     (case map_of (nodeMap st) (t_id targetNode) of
        None \<Rightarrow> Inl TypeError
      | Some _ \<Rightarrow>
          Inr (st\<lparr>nodeMap :=
                 AList.map_entry (t_id targetNode)
                   (\<lambda>e. e\<lparr>sources := set_add (eventType transition) (sources e)\<rparr>)
                   (nodeMap st)\<rparr>))"

text \<open>Lines 212--220.\<close>

definition walkGuard :: "StateNode \<Rightarrow> TransitionDefinition \<Rightarrow> WalkState \<Rightarrow> WalkState" where
  "walkGuard node transition st =
     (case cond transition of
        None \<Rightarrow> st
      | Some name \<Rightarrow>
          if name \<noteq> [] \<and> name \<noteq> ''cond'' then
            st\<lparr>guards := addEventToItem name (eventType transition) (sn_path node) (guards st)\<rparr>
          else st)"

text \<open>Lines 222--234.\<close>

definition addEvent :: "string \<Rightarrow> string list \<Rightarrow> string option \<Rightarrow> ItemMap \<Rightarrow> ItemMap" where
  "addEvent evt p x im = (case x of Some s \<Rightarrow> addEventToItem s evt p im | None \<Rightarrow> im)"

definition walkTargetInvokes :: "StateNode \<Rightarrow> TransitionDefinition \<Rightarrow> WalkState \<Rightarrow> WalkState" where
  "walkTargetInvokes node transition st =
     st\<lparr>services :=
          fold (\<lambda>targetNode.
                  fold (addEvent (eventType transition) (sn_path node)) (t_invoke targetNode))
            (target transition) (services st)\<rparr>"

text \<open>Lines 246--267: one branch of \<^verbatim>\<open>xstate.choose\<close>.\<close>

definition walkCond :: "StateNode \<Rightarrow> TransitionDefinition \<Rightarrow> ChooseCond \<Rightarrow> WalkState \<Rightarrow> WalkState" where
  "walkCond node transition b st =
     (let st1 = (case cc_cond b of
                   Some g \<Rightarrow>
                     st\<lparr>guards :=
                          addEventToItem g (eventType transition) (sn_path node) (guards st)\<rparr>
                 | None \<Rightarrow> st)
      in case cc_actions b of
           ActionArray condActions \<Rightarrow>
             st1\<lparr>actions :=
                   fold (addEvent (eventType transition) (sn_path node)) condActions
                     (actions st1)\<rparr>
         | ActionString condAction \<Rightarrow>
             st1\<lparr>actions :=
                   addEventToItem condAction (eventType transition) (sn_path node)
                     (actions st1)\<rparr>
         | ActionOther \<Rightarrow> st1)"

text \<open>Lines 237--273: one action of a transition.\<close>

definition walkAction :: "StateNode \<Rightarrow> TransitionDefinition \<Rightarrow> ActionObject \<Rightarrow> WalkState \<Rightarrow> WalkState" where
  "walkAction node transition a st =
     (let st1 = (if \<not> xstateRegex_test (a_type a) then
                   st\<lparr>actions :=
                        addEventToItem (a_type a) (eventType transition) (sn_path node)
                          (actions st)\<rparr>
                 else st)
      in if a_type a = ''xstate.choose'' then
           (case a_conds a of
              Some conds \<Rightarrow> fold (walkCond node transition) conds st1
            | None \<Rightarrow> st1)
         else st1)"

text \<open>Lines 206--275: one transition of a node.\<close>

definition walkTransition :: "StateNode \<Rightarrow> TransitionDefinition \<Rightarrow> WalkState \<Rightarrow> error + WalkState" where
  "walkTransition node transition st =
     (case forEach_err (addSource transition) (target transition) st of
        Inl e \<Rightarrow> Inl e
      | Inr st1 \<Rightarrow>
          Inr (fold (walkAction node transition) (actions_t transition)
                 (walkTargetInvokes node transition (walkGuard node transition st1))))"

text \<open>Lines 154--276: the body of the first loop over all state nodes.\<close>

definition walkNode :: "StateNode \<Rightarrow> WalkState \<Rightarrow> error + WalkState" where
  "walkNode node st =
     (case forEach_err (addChild node) (sn_states node) (walkInitial node st) of
        Inl e \<Rightarrow> Inl e
      | Inr st1 \<Rightarrow>
          forEach_err (walkTransition node) (sn_transitions node) (walkOccurrences node st1))"

text \<open>Lines 278--294: the body of the second loop.\<close>

definition addEntrySources :: "StateNode \<Rightarrow> ActionObject \<Rightarrow> WalkState \<Rightarrow> error + WalkState" where
  "addEntrySources node a st =
     (case map_of (nodeMap st) (sn_id node) of
        None \<Rightarrow> Inl TypeError
      | Some e \<Rightarrow>
          Inr (st\<lparr>actions :=
                 fold (\<lambda>source. addEventToItem (a_type a) source (sn_path node)) (sources e)
                   (actions st)\<rparr>))"

definition walkEntryExit :: "StateNode \<Rightarrow> WalkState \<Rightarrow> error + WalkState" where
  "walkEntryExit node st =
     forEach_err (addEntrySources node) (sn_onEntry node)
       (st\<lparr>actions :=
             fold (\<lambda>a im. if xstateRegex_test (a_type a) \<or> a_exec a then im
                           else addItem (a_type a) (sn_path node) im)
               (sn_onExit node @ sn_onEntry node) (actions st)\<rparr>)"

definition initState :: "Machine \<Rightarrow> StateNode list \<Rightarrow> WalkState" where
  "initState machine nodes =
     \<lparr>nodeMap = initNodeMap nodes,
      guards = new_ItemMap (implemented (guards_impl (options machine))),
      actions = new_ItemMap (implemented (actions_impl (options machine))),
      services = new_ItemMap (implemented (services_impl (options machine))),
      activities = new_ItemMap (implemented (activities_impl (options machine))),
      delays = new_ItemMap (implemented (delays_impl (options machine)))\<rparr>"

text \<open>Lines 119--294: everything before the substate tree is built.\<close>

definition walk :: "Machine \<Rightarrow> error + WalkState" where
  "walk machine =
     (case allStateNodes machine (stateIds machine) of
        Inl e \<Rightarrow> Inl e
      | Inr nodes \<Rightarrow>
          (case forEach_err walkNode nodes (initState machine nodes) of
             Inl e \<Rightarrow> Inl e
           | Inr st \<Rightarrow> forEach_err walkEntryExit nodes st))"

section \<open>The substate tree: \<^verbatim>\<open>makeSubStateFromNode\<close>\<close>

datatype SubState =
  SubState (ss_sources: "string list") (ss_targets: "string list")
    (ss_states: "(string \<times> SubState) list")

text \<open>\<^verbatim>\<open>reduce\<close> over the children with a callback that may throw or may not return.\<close>

fun reduce_opt ::
  "('b \<Rightarrow> 'a \<Rightarrow> (error + 'b) option) \<Rightarrow> 'a list \<Rightarrow> 'b \<Rightarrow> (error + 'b) option" where
  "reduce_opt f [] acc = Some (Inr acc)"
| "reduce_opt f (x # xs) acc =
     (case f acc x of
        None \<Rightarrow> None
      | Some (Inl e) \<Rightarrow> Some (Inl e)
      | Some (Inr acc') \<Rightarrow> reduce_opt f xs acc')"

text \<open>The recursion of the source is unbounded; the model counts the nesting depth it
  may still use and returns \<open>None\<close> when that is used up.\<close>

fun makeSubStateFromNode ::
  "nat \<Rightarrow> Helpers \<Rightarrow> StateNode \<Rightarrow> Machine \<Rightarrow> (string \<times> NodeEntry) list
     \<Rightarrow> (error + SubState) option" where
  "makeSubStateFromNode 0 h node rootNode nm = None"
| "makeSubStateFromNode (Suc fuel) h node rootNode nm =
     (case getStateNodeById rootNode (sn_id node) of
        None \<Rightarrow> Some (Inl (StateNodeNotFound (sn_id node)))
      | Some stateNode \<Rightarrow>
          (case map_of nm (sn_id node) of
             None \<Rightarrow> Some (Inl TypeError)
           | Some nodeFromMap \<Rightarrow>
               (case reduce_opt
                       (\<lambda>obj child.
                          case getStateNodeById rootNode child of
                            None \<Rightarrow> Some (Inl (StateNodeNotFound child))
                          | Some childNode \<Rightarrow>
                              (case makeSubStateFromNode fuel h childNode rootNode nm of
                                 None \<Rightarrow> None
                               | Some (Inl e) \<Rightarrow> Some (Inl e)
                               | Some (Inr sub) \<Rightarrow>
                                   Some (Inr (AList.update (sn_key childNode) sub obj))))
                       (children nodeFromMap) [] of
                  None \<Rightarrow> None
                | Some (Inl e) \<Rightarrow> Some (Inl e)
                | Some (Inr sts) \<Rightarrow>
                    Some (Inr (SubState
                      (filter (\<lambda>s. s \<noteq> []) (sources nodeFromMap))
                      (filter (\<lambda>s. s \<noteq> []) (getTransitionsFromNode h stateNode))
                      sts)))))"

section \<open>The result of \<^verbatim>\<open>introspectMachine\<close>\<close>

record Edge =
  e_id :: string
  e_sources :: "string list"

record Result =
  r_states :: "Edge list"      \<comment> \<open>the edge index, one entry per key of \<^verbatim>\<open>nodeMap\<close>\<close>
  r_stateMatches :: "string list list"
  r_subState :: SubState
  r_guards :: DataShape
  r_actions :: DataShape
  r_services :: DataShape
  r_activities :: DataShape
  r_delays :: DataShape

definition assemble :: "Helpers \<Rightarrow> Machine \<Rightarrow> WalkState \<Rightarrow> SubState \<Rightarrow> Result" where
  "assemble h machine st sub =
     \<lparr>r_states = map (\<lambda>(stateId, state). \<lparr>e_id = stateId, e_sources = sources state\<rparr>)
                   (nodeMap st),
      r_stateMatches = getMatchesStates h machine,
      r_subState = sub,
      r_guards = toDataShape (guards st),
      r_actions = toDataShape (actions st),
      r_services = toDataShape (services st),
      r_activities = toDataShape (activities st),
      r_delays = toDataShape (delays st)\<rparr>"

definition introspectMachine :: "nat \<Rightarrow> Helpers \<Rightarrow> Machine \<Rightarrow> (error + Result) option" where
  "introspectMachine fuel h machine =
     (case walk machine of
        Inl e \<Rightarrow> Some (Inl e)
      | Inr st \<Rightarrow>
          (case makeSubStateFromNode fuel h (m_root machine) machine (nodeMap st) of
             None \<Rightarrow> None
           | Some (Inl e) \<Rightarrow> Some (Inl e)
           | Some (Inr sub) \<Rightarrow> Some (Inr (assemble h machine st sub))))"

section \<open>Notions used in the statements\<close>

definition item_names :: "ItemMap \<Rightarrow> string set" where
  "item_names im = fst ` set (im_map im)"

definition events_of :: "ItemMap \<Rightarrow> string \<Rightarrow> string list" where
  "events_of im name = (case map_of (im_map im) name of None \<Rightarrow> [] | Some e \<Rightarrow> events e)"

text \<open>The branches of the \<^verbatim>\<open>xstate.choose\<close> actions of a transition that carry an array
  of branches, and the names a branch contributes.\<close>

definition choose_branches :: "TransitionDefinition \<Rightarrow> ChooseCond list" where
  "choose_branches transition =
     concat (map (\<lambda>a. if a_type a = ''xstate.choose'' then
                         (case a_conds a of Some conds \<Rightarrow> conds | None \<Rightarrow> [])
                       else [])
               (actions_t transition))"

definition branch_actions :: "ChooseCond \<Rightarrow> string list" where
  "branch_actions b =
     (case cc_actions b of
        ActionArray condActions \<Rightarrow> concat (map (\<lambda>x. case x of Some s \<Rightarrow> [s] | None \<Rightarrow> []) condActions)
      | ActionString condAction \<Rightarrow> [condAction]
      | ActionOther \<Rightarrow> [])"

text \<open>All categories of a result, and the lines of all of them.\<close>

definition categories :: "Result \<Rightarrow> DataShape list" where
  "categories r = [r_guards r, r_actions r, r_services r, r_activities r, r_delays r]"

definition all_lines :: "Result \<Rightarrow> Line list" where
  "all_lines r = concat (map lines (categories r))"

text \<open>The optionality predicates that the five registries carry.\<close>

definition optionality :: "WalkState \<Rightarrow> (string \<Rightarrow> bool) list" where
  "optionality st =
     [checkIfOptional (guards st), checkIfOptional (actions st), checkIfOptional (services st),
      checkIfOptional (activities st), checkIfOptional (delays st)]"

text \<open>The transitions of a machine, each with the state node that owns it.\<close>

definition machine_transitions :: "Machine \<Rightarrow> (StateNode \<times> TransitionDefinition) list" where
  "machine_transitions machine =
     concat (map (\<lambda>i. case getStateNodeById machine i of
                         Some node \<Rightarrow> map (Pair node) (sn_transitions node)
                       | None \<Rightarrow> [])
               (stateIds machine))"

text \<open>Registries only grow: the events recorded for the guards and for the actions in one
  state of the traversal are still recorded in a later one.\<close>

definition im_le :: "ItemMap \<Rightarrow> ItemMap \<Rightarrow> bool" where
  "im_le a b = (\<forall>n. set (events_of a n) \<subseteq> set (events_of b n))"

definition grows :: "WalkState \<Rightarrow> WalkState \<Rightarrow> bool" where
  "grows s s' = (im_le (guards s) (guards s') \<and> im_le (actions s) (actions s'))"

text \<open>What the registries hold once the branch \<open>b\<close> of a transition with event \<open>e\<close> has
  been visited.\<close>

definition branch_registered :: "string \<Rightarrow> ChooseCond \<Rightarrow> WalkState \<Rightarrow> bool" where
  "branch_registered e b s =
     ((\<forall>g. cc_cond b = Some g \<longrightarrow> e \<in> set (events_of (guards s) g)) \<and>
      (\<forall>a \<in> set (branch_actions b). e \<in> set (events_of (actions s) a)))"


text \<open>The children that \<^verbatim>\<open>nodeMap\<close> records under an id are child states of a state node
  with that id.\<close>

definition children_declared :: "StateNode list \<Rightarrow> (string \<times> NodeEntry) list \<Rightarrow> bool" where
  "children_declared nodes nm =
     (\<forall>x e. map_of nm x = Some e \<longrightarrow>
        (\<forall>c \<in> set (children e). \<exists>n \<in> set nodes. sn_id n = x \<and> c \<in> set (sn_states n)))"


text \<open>The state nodes of a machine: what its \<^verbatim>\<open>stateIds\<close> resolve to.\<close>

definition machine_nodes :: "Machine \<Rightarrow> StateNode list" where
  "machine_nodes machine =
     concat (map (\<lambda>i. case getStateNodeById machine i of Some node \<Rightarrow> [node] | None \<Rightarrow> [])
               (stateIds machine))"

text \<open>The events under which the machine declares a guard name: the events of the
  transitions that carry the name as their own guard (unless empty or \<open>cond\<close>) or as the
  guard of one of their \<^verbatim>\<open>xstate.choose\<close> branches.\<close>

definition guard_event_declared :: "Machine \<Rightarrow> string \<Rightarrow> string \<Rightarrow> bool" where
  "guard_event_declared machine g e =
     list_ex (\<lambda>(node, t). eventType t = e \<and>
                ((cond t = Some g \<and> g \<noteq> [] \<and> g \<noteq> ''cond'') \<or>
                 list_ex (\<lambda>b. cc_cond b = Some g) (choose_branches t)))
       (machine_transitions machine)"

text \<open>The events that lead into the state with the id \<open>x\<close>: the events of the transitions
  with a target of that id.\<close>

definition leads_into :: "Machine \<Rightarrow> string \<Rightarrow> string \<Rightarrow> bool" where
  "leads_into machine e x =
     list_ex (\<lambda>(node, t). eventType t = e \<and> list_ex (\<lambda>tg. t_id tg = x) (target t))
       (machine_transitions machine)"

text \<open>The events under which the machine declares an action name \<open>a\<close>:
  \<^item> \<open>xstate.init\<close>, when \<open>a\<close> is a non-empty entry action of an initial state node;
  \<^item> the event of a transition that has \<open>a\<close> among its actions, unless \<open>a\<close> starts with
    \<open>xstate.\<close>, or among the actions of one of its \<^verbatim>\<open>xstate.choose\<close> branches;
  \<^item> an event that leads into a state node with the entry action \<open>a\<close>.\<close>

definition action_event_declared :: "Machine \<Rightarrow> string \<Rightarrow> string \<Rightarrow> bool" where
  "action_event_declared machine a e =
     ((e = ''xstate.init'' \<and> a \<noteq> [] \<and>
       list_ex (\<lambda>n. is_initial n \<and> list_ex (\<lambda>act. a_type act = a) (sn_onEntry n))
         (machine_nodes machine)) \<or>
      list_ex (\<lambda>(node, t). eventType t = e \<and>
                 ((\<not> xstateRegex_test a \<and> list_ex (\<lambda>act. a_type act = a) (actions_t t)) \<or>
                  list_ex (\<lambda>b. a \<in> set (branch_actions b)) (choose_branches t)))
        (machine_transitions machine) \<or>
      list_ex (\<lambda>n. list_ex (\<lambda>act. a_type act = a) (sn_onEntry n) \<and> leads_into machine e (sn_id n))
        (machine_nodes machine))"

text \<open>Every event that a registry holds for a name satisfies \<open>P\<close>; every source that
  \<^verbatim>\<open>nodeMap\<close> holds for an id leads into it.\<close>

definition events_within :: "(string \<Rightarrow> string \<Rightarrow> bool) \<Rightarrow> ItemMap \<Rightarrow> bool" where
  "events_within P im = (\<forall>n e. e \<in> set (events_of im n) \<longrightarrow> P n e)"

definition sources_declared :: "Machine \<Rightarrow> (string \<times> NodeEntry) list \<Rightarrow> bool" where
  "sources_declared machine nm =
     (\<forall>x en. map_of nm x = Some en \<longrightarrow> (\<forall>e \<in> set (sources en). leads_into machine e x))"

text \<open>The invariant of the traversal: the registries of the guards and of the actions hold
  declared events only, and \<^verbatim>\<open>nodeMap\<close> holds declared sources only.\<close>

definition events_declared :: "Machine \<Rightarrow> WalkState \<Rightarrow> bool" where
  "events_declared machine s =
     (events_within (guard_event_declared machine) (guards s) \<and>
      events_within (action_event_declared machine) (actions s) \<and>
      sources_declared machine (nodeMap s))"

section \<open>Machines of the scenarios\<close>

definition stateNode :: "string \<Rightarrow> string \<Rightarrow> string list \<Rightarrow> string list option \<Rightarrow> StateNode" where
  "stateNode i k p par =
     \<lparr>sn_id = i, sn_key = k, sn_path = p, sn_parent = par, sn_states = [],
      sn_transitions = [], sn_onEntry = [], sn_onExit = [], sn_invoke = [],
      sn_activities = [], sn_after = []\<rparr>"

definition named :: "string \<Rightarrow> ActionObject" where
  "named n = \<lparr>a_type = n, a_exec = False, a_conds = None\<rparr>"

definition nothingImplemented :: MachineOptions where
  "nothingImplemented =
     \<lparr>guards_impl = Map.empty, actions_impl = Map.empty, services_impl = Map.empty,
      activities_impl = Map.empty, delays_impl = Map.empty\<rparr>"

definition noHelpers :: Helpers where
  "noHelpers = \<lparr>getTransitionsFromNode = (\<lambda>_. []), getMatchesStates = (\<lambda>_. [])\<rparr>"

text \<open>\<^verbatim>\<open>{id: "m", initial: "A", states: {A: {on: {GO: "B"}},
  B: {entry: "notify", invoke: {src: "fetchData"}}}}\<close>\<close>

definition go_B :: StateNode where
  "go_B = (stateNode ''m.B'' ''B'' [''B''] (Some [''m.A'']))
            \<lparr>sn_onEntry := [named ''notify''], sn_invoke := [Some ''fetchData''],
             sn_activities := [''xstate.invoke'']\<rparr>"

definition go_A :: StateNode where
  "go_A = (stateNode ''m.A'' ''A'' [''A''] (Some [''m.A'']))
            \<lparr>sn_transitions :=
               [\<lparr>eventType = ''GO'',
                 target = [\<lparr>t_id = ''m.B'', t_invoke = [Some ''fetchData'']\<rparr>],
                 cond = None, actions_t = []\<rparr>]\<rparr>"

definition go_root :: StateNode where
  "go_root = (stateNode ''m'' ''m'' [] None)\<lparr>sn_states := [''m.A'', ''m.B'']\<rparr>"

definition go_machine :: "MachineOptions \<Rightarrow> Machine" where
  "go_machine opts =
     \<lparr>m_root = go_root, stateIds = [''m'', ''m.A'', ''m.B''],
      getStateNodeById = map_of [(''m'', go_root), (''m.A'', go_A), (''m.B'', go_B)],
      options = opts\<rparr>"

text \<open>\<^verbatim>\<open>{id: "A", entry: "boot"}\<close>: the root is a leaf, hence its own initial state.\<close>

definition boot_root :: StateNode where
  "boot_root = (stateNode ''A'' ''A'' [] None)\<lparr>sn_onEntry := [named ''boot'']\<rparr>"

definition boot_machine :: "MachineOptions \<Rightarrow> Machine" where
  "boot_machine opts =
     \<lparr>m_root = boot_root, stateIds = [''A''],
      getStateNodeById = map_of [(''A'', boot_root)], options = opts\<rparr>"

text \<open>The first machine with the target of \<^verbatim>\<open>GO\<close> replaced by a node that the machine
  does not contain.\<close>

definition dangling_A :: StateNode where
  "dangling_A = go_A\<lparr>sn_transitions :=
     [\<lparr>eventType = ''GO'', target = [\<lparr>t_id = ''elsewhere'', t_invoke = []\<rparr>],
       cond = None, actions_t = []\<rparr>]\<rparr>"

definition dangling_machine :: Machine where
  "dangling_machine =
     \<lparr>m_root = go_root, stateIds = [''m'', ''m.A'', ''m.B''],
      getStateNodeById = map_of [(''m'', go_root), (''m.A'', dangling_A), (''m.B'', go_B)],
      options = nothingImplemented\<rparr>"

text \<open>\<^verbatim>\<open>{id: "c", initial: "idle", states: {idle: {on: {SUBMIT: {target: "done",
  cond: <inline guard, named "cond">, actions: [choose([{cond: "cond", actions: "save"},
  {cond: "isValid", actions: ["log.info", "track"]}]), "audit"]}}}, done: {}}}\<close>\<close>

definition submit :: TransitionDefinition where
  "submit =
     \<lparr>eventType = ''SUBMIT'',
      target = [\<lparr>t_id = ''c.done'', t_invoke = []\<rparr>],
      cond = Some ''cond'',
      actions_t =
        [\<lparr>a_type = ''xstate.choose'', a_exec = False,
          a_conds = Some [\<lparr>cc_cond = Some ''cond'', cc_actions = ActionString ''save''\<rparr>,
                          \<lparr>cc_cond = Some ''isValid'',
                           cc_actions = ActionArray [Some ''log.info'', None, Some ''track'']\<rparr>]\<rparr>,
         named ''audit'']\<rparr>"

definition choose_idle :: StateNode where
  "choose_idle = (stateNode ''c.idle'' ''idle'' [''idle''] (Some [''c.idle'']))
                   \<lparr>sn_transitions := [submit]\<rparr>"

definition choose_done :: StateNode where
  "choose_done = stateNode ''c.done'' ''done'' [''done''] (Some [''c.idle''])"

definition choose_root :: StateNode where
  "choose_root = (stateNode ''c'' ''c'' [] None)\<lparr>sn_states := [''c.idle'', ''c.done'']\<rparr>"

definition choose_machine :: Machine where
  "choose_machine =
     \<lparr>m_root = choose_root, stateIds = [''c'', ''c.idle'', ''c.done''],
      getStateNodeById =
        map_of [(''c'', choose_root), (''c.idle'', choose_idle), (''c.done'', choose_done)],
      options = nothingImplemented\<lparr>actions_impl := [''audit'' \<mapsto> Callable]\<rparr>\<rparr>"

text \<open>A registry in which a qualified name is registered twice.\<close>

definition qualified_registry :: ItemMap where
  "qualified_registry =
     addEventToItem ''log.info'' ''E'' [''s'']
       (addEventToItem ''log.info'' ''F'' [''s'']
          (addItem ''save'' [''s''] (new_ItemMap (\<lambda>_. False))))"



text \<open>The first machine with transitions that lead back: from \<open>B\<close> to \<open>A\<close>, to the root
  and to \<open>B\<close> itself.\<close>

definition loop_B :: StateNode where
  "loop_B = go_B\<lparr>sn_transitions :=
     [\<lparr>eventType = ''BACK'', target = [\<lparr>t_id = ''m.A'', t_invoke = []\<rparr>],
       cond = None, actions_t = []\<rparr>,
      \<lparr>eventType = ''UP'', target = [\<lparr>t_id = ''m'', t_invoke = []\<rparr>],
       cond = None, actions_t = []\<rparr>,
      \<lparr>eventType = ''AGAIN'', target = [\<lparr>t_id = ''m.B'', t_invoke = [Some ''fetchData'']\<rparr>],
       cond = None, actions_t = []\<rparr>]\<rparr>"

definition loop_machine :: Machine where
  "loop_machine =
     \<lparr>m_root = go_root, stateIds = [''m'', ''m.A'', ''m.B''],
      getStateNodeById = map_of [(''m'', go_root), (''m.A'', go_A), (''m.B'', loop_B)],
      options = nothingImplemented\<rparr>"



section \<open>Loops\<close>

lemma fold_inv:
  assumes "P s" and step: "\<And>x s. x \<in> set xs \<Longrightarrow> P s \<Longrightarrow> P (f x s)"
  shows "P (fold f xs s)"
  using assms(1) step
proof (induction xs arbitrary: s)
  case Nil
  then show ?case by simp
next
  case (Cons y ys)
  have "P (f y s)" by (rule Cons.prems(2)) (simp_all add: Cons.prems(1))
  moreover have "P (f z t)" if "z \<in> set ys" "P t" for z t
    by (rule Cons.prems(2)) (simp_all add: that)
  ultimately have "P (fold f ys (f y s))" by (rule Cons.IH)
  then show ?case by simp
qed

lemma forEach_err_inv:
  assumes "forEach_err f xs s = Inr s'" and "P s"
    and step: "\<And>x s s'. x \<in> set xs \<Longrightarrow> P s \<Longrightarrow> f x s = Inr s' \<Longrightarrow> P s'"
  shows "P s'"
  using assms(1,2) step
proof (induction xs arbitrary: s)
  case Nil
  then show ?case by simp
next
  case (Cons y ys)
  from Cons.prems(1) obtain s1 where s1: "f y s = Inr s1" and rest: "forEach_err f ys s1 = Inr s'"
    by (cases "f y s") simp_all
  have "P s1" by (rule Cons.prems(3) [of y s s1]) (simp_all add: Cons.prems(2) s1)
  moreover have "P t'" if "z \<in> set ys" "P t" "f z t = Inr t'" for z t t'
    by (rule Cons.prems(3) [of z t t']) (simp_all add: that)
  ultimately show ?case by (rule Cons.IH [OF rest])
qed

text \<open>A property that one element of the loop establishes and every later step keeps
  holds at the end.\<close>

lemma fold_establish:
  assumes "x \<in> set xs" and est: "\<And>s. P (f x s)"
    and keep: "\<And>y s. y \<in> set xs \<Longrightarrow> P s \<Longrightarrow> P (f y s)"
  shows "P (fold f xs s)"
  using assms(1) keep
proof (induction xs arbitrary: s)
  case Nil
  then show ?case by simp
next
  case (Cons y ys)
  have keep': "P (f z t)" if "z \<in> set ys" "P t" for z t
    by (rule Cons.prems(2)) (simp_all add: that)
  show ?case
  proof (cases "x \<in> set ys")
    case True
    have "P (fold f ys (f y s))" by (rule Cons.IH [OF True keep'])
    then show ?thesis by simp
  next
    case False
    with Cons.prems(1) have "x = y" by simp
    then have "P (f y s)" using est by simp
    then have "P (fold f ys (f y s))" by (rule fold_inv) (rule keep')
    then show ?thesis by simp
  qed
qed

lemma forEach_err_establish:
  assumes "forEach_err f xs s = Inr s'" and "x \<in> set xs"
    and est: "\<And>s s'. f x s = Inr s' \<Longrightarrow> P s'"
    and keep: "\<And>y s s'. y \<in> set xs \<Longrightarrow> P s \<Longrightarrow> f y s = Inr s' \<Longrightarrow> P s'"
  shows "P s'"
  using assms(1,2) keep
proof (induction xs arbitrary: s)
  case Nil
  then show ?case by simp
next
  case (Cons y ys)
  from Cons.prems(1) obtain s1 where s1: "f y s = Inr s1" and rest: "forEach_err f ys s1 = Inr s'"
    by (cases "f y s") simp_all
  have keep': "P t'" if "z \<in> set ys" "P t" "f z t = Inr t'" for z t t'
    by (rule Cons.prems(3) [of z t t']) (simp_all add: that)
  show ?case
  proof (cases "x \<in> set ys")
    case True
    show ?thesis by (rule Cons.IH [OF rest True keep'])
  next
    case False
    with Cons.prems(2) have "x = y" by simp
    with s1 have "P s1" by (simp add: est)
    then show ?thesis by (rule forEach_err_inv [OF rest]) (rule keep')
  qed
qed

text \<open>The loop fails when one element fails on every state that the loop can reach.\<close>

lemma forEach_err_fails:
  assumes "x \<in> set xs" and "P s"
    and fails: "\<And>s. P s \<Longrightarrow> \<exists>e. f x s = Inl e"
    and keep: "\<And>y s s'. y \<in> set xs \<Longrightarrow> P s \<Longrightarrow> f y s = Inr s' \<Longrightarrow> P s'"
  shows "\<exists>e. forEach_err f xs s = Inl e"
  using assms(1,2) keep
proof (induction xs arbitrary: s)
  case Nil
  then show ?case by simp
next
  case (Cons y ys)
  have keep': "P t'" if "z \<in> set ys" "P t" "f z t = Inr t'" for z t t'
    by (rule Cons.prems(3) [of z t t']) (simp_all add: that)
  show ?case
  proof (cases "f y s")
    case (Inl e)
    then show ?thesis by simp
  next
    case (Inr s1)
    from fails [OF Cons.prems(2)] obtain e0 where "f x s = Inl e0" ..
    with Inr have "x \<noteq> y" by auto
    with Cons.prems(1) have mem: "x \<in> set ys" by simp
    have "P s1" by (rule Cons.prems(3) [of y s s1]) (simp_all add: Cons.prems(2) Inr)
    then have "\<exists>e. forEach_err f ys s1 = Inl e" by (rule Cons.IH [OF mem]) (rule keep')
    with Inr show ?thesis by simp
  qed
qed

section \<open>The registry\<close>

lemma map_entry_keys: "map fst (AList.map_entry k f xs) = map fst xs"
  by (induct xs) auto

lemma set_set_add [simp]: "set (set_add x xs) = insert x (set xs)"
  by (auto simp add: set_add_def)

lemma checkIfOptional_addItem [simp]: "checkIfOptional (addItem n p im) = checkIfOptional im"
  by (simp add: addItem_def Let_def)

lemma checkIfOptional_addEventToItem [simp]:
  "checkIfOptional (addEventToItem n e p im) = checkIfOptional im"
  by (simp add: addEventToItem_def Let_def)

lemma checkIfOptional_fold:
  "(\<And>x im. checkIfOptional (g x im) = checkIfOptional im)
   \<Longrightarrow> checkIfOptional (fold g xs im) = checkIfOptional im"
  by (induction xs arbitrary: im) simp_all

lemma checkIfOptional_addInit [simp]: "checkIfOptional (addInit p x im) = checkIfOptional im"
  by (simp add: addInit_def split: option.splits)

lemma checkIfOptional_addOccurrence [simp]:
  "checkIfOptional (addOccurrence p x im) = checkIfOptional im"
  by (simp add: addOccurrence_def split: option.splits)

lemma checkIfOptional_addEvent [simp]: "checkIfOptional (addEvent e p x im) = checkIfOptional im"
  by (simp add: addEvent_def split: option.splits)

lemma item_names_addItem [simp]: "item_names (addItem n p im) = insert n (item_names im)"
proof (cases "map_of (im_map im) n")
  case None
  then show ?thesis
    by (simp add: item_names_def addItem_def Let_def AList.dom_map_entry)
next
  case (Some e)
  then have "n \<in> fst ` set (im_map im)"
    by (metis domI dom_map_of_conv_image_fst)
  with Some show ?thesis
    by (auto simp add: item_names_def addItem_def Let_def AList.dom_map_entry)
qed

lemma item_names_addEventToItem [simp]:
  "item_names (addEventToItem n e p im) = insert n (item_names im)"
proof -
  have "item_names (addEventToItem n e p im) = item_names (addItem n p im)"
    by (simp add: item_names_def addEventToItem_def Let_def AList.dom_map_entry)
  then show ?thesis by simp
qed

lemma events_of_addItem [simp]: "events_of (addItem n p im) n' = events_of im n'"
  by (cases "map_of (im_map im) n")
     (auto simp add: events_of_def addItem_def Let_def AList.map_of_map_entry
           split: option.splits)

lemma events_of_addEventToItem:
  "events_of (addEventToItem n e p im) n' =
     (if n' = n then set_add e (events_of im n) else events_of im n')"
proof -
  have "n \<in> item_names (addItem n p im)" by simp
  then obtain v where v: "map_of (im_map (addItem n p im)) n = Some v"
    unfolding item_names_def
    by (metis domD dom_map_of_conv_image_fst)
  have "events_of (addEventToItem n e p im) n' =
        (if n' = n then set_add e (events_of (addItem n p im) n)
         else events_of (addItem n p im) n')"
    using v by (simp add: events_of_def addEventToItem_def Let_def AList.map_of_map_entry)
  then show ?thesis by simp
qed

section \<open>The report of a registry\<close>

lemma toDataShape_no_dot:
  "l \<in> set (lines (toDataShape im)) \<Longrightarrow> CHR ''.'' \<notin> set (l_name l)"
  by (auto simp add: toDataShape_def Let_def toLine_def has_dot_def)


lemma toDataShape_required:
  "required (toDataShape im) = (\<exists>l \<in> set (lines (toDataShape im)). l_required l)"
  by (auto simp add: toDataShape_def Let_def toLine_def list_ex_iff)


lemma introspectMachine_Inr:
  assumes "introspectMachine fuel h machine = Some (Inr r)"
  obtains st sub where "walk machine = Inr st"
    and "makeSubStateFromNode fuel h (m_root machine) machine (nodeMap st) = Some (Inr sub)"
    and "r = assemble h machine st sub"
  using assms unfolding introspectMachine_def
  by (auto split: sum.splits option.splits)

lemma all_lines_assemble:
  "set (all_lines (assemble h machine st sub)) =
     set (lines (toDataShape (guards st))) \<union> set (lines (toDataShape (actions st))) \<union>
     set (lines (toDataShape (services st))) \<union> set (lines (toDataShape (activities st))) \<union>
     set (lines (toDataShape (delays st)))"
  by (auto simp add: all_lines_def categories_def assemble_def)

section \<open>The optionality predicates are fixed at construction\<close>

lemma optionality_walkInitial [simp]: "optionality (walkInitial node st) = optionality st"
  by (simp add: walkInitial_def optionality_def checkIfOptional_fold)

lemma optionality_walkOccurrences [simp]: "optionality (walkOccurrences node st) = optionality st"
  by (simp add: walkOccurrences_def optionality_def checkIfOptional_fold)

lemma optionality_walkGuard [simp]: "optionality (walkGuard node t st) = optionality st"
  by (simp add: walkGuard_def optionality_def split: option.splits)

lemma optionality_walkTargetInvokes [simp]:
  "optionality (walkTargetInvokes node t st) = optionality st"
  by (simp add: walkTargetInvokes_def optionality_def checkIfOptional_fold)

lemma optionality_walkCond [simp]: "optionality (walkCond node t b st) = optionality st"
  by (simp add: walkCond_def optionality_def checkIfOptional_fold Let_def
           split: option.splits CondActions.splits)

lemma optionality_fold:
  "(\<And>x st. optionality (g x st) = optionality st)
   \<Longrightarrow> optionality (fold g xs st) = optionality st"
  by (induction xs arbitrary: st) simp_all

lemma optionality_walkAction [simp]: "optionality (walkAction node t a st) = optionality st"
proof -
  have "optionality (st\<lparr>actions := addEventToItem n e p (actions st)\<rparr>) = optionality st"
    for n e p
    by (simp add: optionality_def)
  then show ?thesis
    by (simp add: walkAction_def Let_def optionality_fold split: option.splits)
qed








lemma optionality_initState [simp]:
  "optionality (initState machine nodes) =
     [implemented (guards_impl (options machine)), implemented (actions_impl (options machine)),
      implemented (services_impl (options machine)),
      implemented (activities_impl (options machine)),
      implemented (delays_impl (options machine))]"
  by (simp add: optionality_def initState_def new_ItemMap_def)


text \<open>
  Claim C6.  No line of a report carries a name that contains the separator \<open>.\<close>: this
  holds for the report of every registry, whatever was registered in it and however
  often, and hence for every line of every category of an introspection result.
\<close>

theorem report_excludes_qualified_names:
  "(\<forall>l \<in> set (lines (toDataShape im)). CHR ''.'' \<notin> set (l_name l)) \<and>
   (introspectMachine fuel h machine = Some (Inr r) \<longrightarrow>
      (\<forall>l \<in> set (all_lines r). CHR ''.'' \<notin> set (l_name l)))"
proof (intro conjI impI ballI)
  fix l assume "l \<in> set (lines (toDataShape im))"
  then show "CHR ''.'' \<notin> set (l_name l)" by (rule toDataShape_no_dot)
next
  fix l assume run: "introspectMachine fuel h machine = Some (Inr r)" and l: "l \<in> set (all_lines r)"
  from run obtain st sub where "r = assemble h machine st sub"
    by (rule introspectMachine_Inr)
  with l show "CHR ''.'' \<notin> set (l_name l)"
    by (auto simp add: all_lines_assemble dest: toDataShape_no_dot)
qed

theorem report_excludes_qualified_names_witness:
  "''log.info'' \<in> item_names qualified_registry \<and>
   list_all (\<lambda>l. CHR ''.'' \<notin> set (l_name l)) (lines (toDataShape qualified_registry)) \<and>
   (case walk choose_machine of
      Inr st \<Rightarrow> ''log.info'' \<in> item_names (actions st) | Inl e \<Rightarrow> False) \<and>
   (\<exists>r. introspectMachine 2 noHelpers choose_machine = Some (Inr r) \<and>
        list_all (\<lambda>l. CHR ''.'' \<notin> set (l_name l)) (all_lines r))"
proof -
  have a: "''log.info'' \<in> item_names qualified_registry"
    by (simp add: qualified_registry_def)
  have b: "case walk choose_machine of
      Inr st \<Rightarrow> ''log.info'' \<in> item_names (actions st) | Inl e \<Rightarrow> False"
    by code_simp
  have "case introspectMachine 2 noHelpers choose_machine of Some (Inr r) \<Rightarrow> True | _ \<Rightarrow> False"
    by code_simp
  then obtain r where r: "introspectMachine 2 noHelpers choose_machine = Some (Inr r)"
    by (auto split: option.splits sum.splits)
  note inst = report_excludes_qualified_names
    [of qualified_registry 2 noHelpers choose_machine r]
  from inst r have "list_all (\<lambda>l. CHR ''.'' \<notin> set (l_name l)) (all_lines r)"
    by (simp add: list_all_iff)
  moreover from inst have
    "list_all (\<lambda>l. CHR ''.'' \<notin> set (l_name l)) (lines (toDataShape qualified_registry))"
    by (simp add: list_all_iff)
  ultimately show ?thesis using a b r by blast
qed








section \<open>The keys of \<^verbatim>\<open>nodeMap\<close>\<close>

lemma allStateNodes_set:
  "allStateNodes machine ids = Inr nodes \<Longrightarrow>
     set nodes = {n. \<exists>i \<in> set ids. getStateNodeById machine i = Some n}"
proof (induction ids arbitrary: nodes)
  case Nil
  then show ?case by simp
next
  case (Cons i ids)
  from Cons.prems obtain n ns where n: "getStateNodeById machine i = Some n"
    and ns: "allStateNodes machine ids = Inr ns" and nodes: "nodes = n # ns"
    by (auto split: option.splits sum.splits)
  from Cons.IH [OF ns] show ?case
    unfolding nodes using n by auto
qed

lemma allStateNodes_resolved:
  "allStateNodes machine ids = Inr nodes \<Longrightarrow> \<forall>i \<in> set ids. getStateNodeById machine i \<noteq> None"
  by (induction ids arbitrary: nodes) (auto split: option.splits sum.splits)

lemma keys_fold_update:
  "fst ` set (fold (\<lambda>node nm. AList.update (sn_id node) v nm) nodes nm) =
     fst ` set nm \<union> sn_id ` set nodes"
  by (induction nodes arbitrary: nm) (auto simp add: AList.dom_update)

lemma distinct_fold_update:
  "distinct (map fst nm) \<Longrightarrow>
     distinct (map fst (fold (\<lambda>node nm. AList.update (sn_id node) v nm) nodes nm))"
  by (induction nodes arbitrary: nm) (simp_all add: AList.distinct_update)

lemma keys_initNodeMap: "fst ` set (initNodeMap nodes) = sn_id ` set nodes"
  by (simp add: initNodeMap_def keys_fold_update)

lemma distinct_initNodeMap: "distinct (map fst (initNodeMap nodes))"
  by (simp add: initNodeMap_def distinct_fold_update)

lemma nodeMap_walkInitial [simp]: "nodeMap (walkInitial node st) = nodeMap st"
  by (simp add: walkInitial_def)

lemma nodeMap_walkOccurrences [simp]: "nodeMap (walkOccurrences node st) = nodeMap st"
  by (simp add: walkOccurrences_def)

lemma nodeMap_walkGuard [simp]: "nodeMap (walkGuard node t st) = nodeMap st"
  by (simp add: walkGuard_def split: option.splits)

lemma nodeMap_walkTargetInvokes [simp]: "nodeMap (walkTargetInvokes node t st) = nodeMap st"
  by (simp add: walkTargetInvokes_def)

lemma nodeMap_walkCond [simp]: "nodeMap (walkCond node t b st) = nodeMap st"
  by (simp add: walkCond_def Let_def split: option.splits CondActions.splits)

lemma nodeMap_fold:
  "(\<And>x st. nodeMap (g x st) = nodeMap st) \<Longrightarrow> nodeMap (fold g xs st) = nodeMap st"
  by (induction xs arbitrary: st) simp_all

lemma nodeMap_walkAction [simp]: "nodeMap (walkAction node t a st) = nodeMap st"
  by (simp add: walkAction_def Let_def nodeMap_fold split: option.splits)

lemma nodeMap_addEntrySources:
  "addEntrySources node a st = Inr st' \<Longrightarrow> nodeMap st' = nodeMap st"
  by (auto simp add: addEntrySources_def split: option.splits)

lemma nodeMap_walkEntryExit:
  assumes "walkEntryExit node st = Inr st'"
  shows "nodeMap st' = nodeMap st"
proof -
  let ?st1 = "st\<lparr>actions :=
             fold (\<lambda>a im. if xstateRegex_test (a_type a) \<or> a_exec a then im
                           else addItem (a_type a) (sn_path node) im)
               (sn_onExit node @ sn_onEntry node) (actions st)\<rparr>"
  have "nodeMap st' = nodeMap ?st1"
    using assms unfolding walkEntryExit_def
    by (rule forEach_err_inv [where P = "\<lambda>s. nodeMap s = nodeMap ?st1"])
       (simp_all add: nodeMap_addEntrySources)
  then show ?thesis by simp
qed

lemma keys_addChild:
  "addChild node c st = Inr st' \<Longrightarrow> map fst (nodeMap st') = map fst (nodeMap st)"
  by (auto simp add: addChild_def map_entry_keys split: option.splits)

lemma keys_addSource:
  "addSource t tg st = Inr st' \<Longrightarrow> map fst (nodeMap st') = map fst (nodeMap st)"
  by (auto simp add: addSource_def map_entry_keys split: option.splits)

lemma keys_forEach_err:
  assumes "forEach_err f xs st = Inr st'"
    and "\<And>x s s'. f x s = Inr s' \<Longrightarrow> map fst (nodeMap s') = map fst (nodeMap s)"
  shows "map fst (nodeMap st') = map fst (nodeMap st)"
  by (rule forEach_err_inv [OF assms(1),
        where P = "\<lambda>s. map fst (nodeMap s) = map fst (nodeMap st)"])
     (simp_all add: assms(2))

lemma keys_walkTransition:
  assumes "walkTransition node t st = Inr st'"
  shows "map fst (nodeMap st') = map fst (nodeMap st)"
proof -
  from assms obtain st1 where a: "forEach_err (addSource t) (target t) st = Inr st1"
    and b: "st' = fold (walkAction node t) (actions_t t)
                    (walkTargetInvokes node t (walkGuard node t st1))"
    by (auto simp add: walkTransition_def split: sum.splits)
  have "nodeMap st' = nodeMap st1" unfolding b by (simp add: nodeMap_fold)
  with keys_forEach_err [OF a keys_addSource] show ?thesis by simp
qed

lemma keys_walkNode:
  assumes "walkNode node st = Inr st'"
  shows "map fst (nodeMap st') = map fst (nodeMap st)"
proof -
  from assms obtain st1 where
    a: "forEach_err (addChild node) (sn_states node) (walkInitial node st) = Inr st1" and
    b: "forEach_err (walkTransition node) (sn_transitions node) (walkOccurrences node st1) = Inr st'"
    by (auto simp add: walkNode_def split: sum.splits)
  from keys_forEach_err [OF a keys_addChild] keys_forEach_err [OF b keys_walkTransition]
  show ?thesis by simp
qed

lemma walk_Inr:
  assumes "walk machine = Inr st"
  obtains nodes st1 where "allStateNodes machine (stateIds machine) = Inr nodes"
    and "forEach_err walkNode nodes (initState machine nodes) = Inr st1"
    and "forEach_err walkEntryExit nodes st1 = Inr st"
  using assms unfolding walk_def by (auto split: sum.splits)

lemma keys_walk:
  assumes "walk machine = Inr st" and "allStateNodes machine (stateIds machine) = Inr nodes"
  shows "map fst (nodeMap st) = map fst (initNodeMap nodes)"
proof -
  from assms obtain st1 where
    a: "forEach_err walkNode nodes (initState machine nodes) = Inr st1" and
    b: "forEach_err walkEntryExit nodes st1 = Inr st"
    by (auto elim!: walk_Inr)
  have "nodeMap st = nodeMap st1"
    by (rule forEach_err_inv [OF b, where P = "\<lambda>s. nodeMap s = nodeMap st1"])
       (simp_all add: nodeMap_walkEntryExit)
  moreover have "map fst (nodeMap st1) = map fst (nodeMap (initState machine nodes))"
    by (rule keys_forEach_err [OF a keys_walkNode])
  ultimately show ?thesis by (simp add: initState_def)
qed

text \<open>
  Claim C4.  The edge index of a result has exactly one entry per state node: its keys
  are pairwise distinct, and they are the ids of the nodes that the machine's
  \<^verbatim>\<open>stateIds\<close> resolve to.
\<close>

theorem every_state_once_in_edges:
  assumes "introspectMachine fuel h machine = Some (Inr r)"
  shows "distinct (map e_id (r_states r)) \<and>
         set (map e_id (r_states r)) =
           {sn_id n | n i. i \<in> set (stateIds machine) \<and> getStateNodeById machine i = Some n} \<and>
         (\<forall>i \<in> set (stateIds machine). getStateNodeById machine i \<noteq> None)"
proof -
  from assms obtain st sub where w: "walk machine = Inr st" and r: "r = assemble h machine st sub"
    by (rule introspectMachine_Inr)
  from w obtain nodes where nodes: "allStateNodes machine (stateIds machine) = Inr nodes"
    by (rule walk_Inr)
  have ids: "map e_id (r_states r) = map fst (nodeMap st)"
    unfolding r by (simp add: assemble_def case_prod_unfold)
  have keys: "map fst (nodeMap st) = map fst (initNodeMap nodes)"
    by (rule keys_walk [OF w nodes])
  have "distinct (map e_id (r_states r))"
    by (simp add: ids keys distinct_initNodeMap)
  moreover have "set (map e_id (r_states r)) = sn_id ` set nodes"
    using keys_initNodeMap [of nodes] by (simp add: ids keys)
  moreover have "sn_id ` set nodes =
      {sn_id n | n i. i \<in> set (stateIds machine) \<and> getStateNodeById machine i = Some n}"
    unfolding allStateNodes_set [OF nodes] by auto
  moreover have "\<forall>i \<in> set (stateIds machine). getStateNodeById machine i \<noteq> None"
    by (rule allStateNodes_resolved [OF nodes])
  ultimately show ?thesis by simp
qed


theorem every_state_once_in_edges_witness:
  "\<exists>r. introspectMachine 2 noHelpers (go_machine nothingImplemented) = Some (Inr r) \<and>
       distinct (map e_id (r_states r)) \<and>
       map e_id (r_states r) = [''m'', ''m.A'', ''m.B'']"
proof -
  have "case introspectMachine 2 noHelpers (go_machine nothingImplemented) of
          Some (Inr r) \<Rightarrow> map e_id (r_states r) = [''m'', ''m.A'', ''m.B''] | _ \<Rightarrow> False"
    by code_simp
  then obtain r where r: "introspectMachine 2 noHelpers (go_machine nothingImplemented) = Some (Inr r)"
    and ids: "map e_id (r_states r) = [''m'', ''m.A'', ''m.B'']"
    by (auto split: option.splits sum.splits)
  from every_state_once_in_edges [OF r] have "distinct (map e_id (r_states r))" by (rule conjunct1)
  with r ids show ?thesis by (intro exI [of _ r] conjI)
qed

section \<open>Dangling transition targets\<close>

lemma addSource_dangling:
  "t_id tg \<notin> fst ` set (nodeMap st) \<Longrightarrow> addSource t tg st = Inl TypeError"
  using map_of_eq_None_iff [of "nodeMap st" "t_id tg"] by (simp add: addSource_def)

lemma walkTransition_dangling:
  assumes "tg \<in> set (target t)" and "t_id tg \<notin> fst ` set (nodeMap st)"
  shows "\<exists>e. walkTransition node t st = Inl e"
proof -
  let ?P = "\<lambda>s. map fst (nodeMap s) = map fst (nodeMap st)"
  have "\<exists>e. forEach_err (addSource t) (target t) st = Inl e"
  proof (rule forEach_err_fails [where P = ?P and x = tg])
    show "tg \<in> set (target t)" by fact
    show "?P st" by simp
    show "\<exists>e. addSource t tg s = Inl e" if "?P s" for s
    proof -
      from that have "fst ` set (nodeMap s) = fst ` set (nodeMap st)"
        by (metis list.set_map)
      with assms(2) show ?thesis by (simp add: addSource_dangling)
    qed
    show "?P s'" if "?P s" "addSource t y s = Inr s'" for y s s'
      using that by (simp add: keys_addSource)
  qed
  then show ?thesis by (auto simp add: walkTransition_def)
qed

lemma walkNode_dangling:
  assumes "t \<in> set (sn_transitions node)" and "tg \<in> set (target t)"
    and "t_id tg \<notin> fst ` set (nodeMap st)"
  shows "\<exists>e. walkNode node st = Inl e"
proof (cases "forEach_err (addChild node) (sn_states node) (walkInitial node st)")
  case (Inl e)
  then show ?thesis by (simp add: walkNode_def)
next
  case (Inr st1)
  let ?P = "\<lambda>s. map fst (nodeMap s) = map fst (nodeMap st)"
  have st1: "?P st1" using keys_forEach_err [OF Inr keys_addChild] by simp
  have "\<exists>e. forEach_err (walkTransition node) (sn_transitions node) (walkOccurrences node st1)
          = Inl e"
  proof (rule forEach_err_fails [where P = ?P and x = t])
    show "t \<in> set (sn_transitions node)" by fact
    show "?P (walkOccurrences node st1)" using st1 by simp
    show "\<exists>e. walkTransition node t s = Inl e" if "?P s" for s
    proof -
      from that have "fst ` set (nodeMap s) = fst ` set (nodeMap st)"
        by (metis list.set_map)
      with assms(3) have "t_id tg \<notin> fst ` set (nodeMap s)" by simp
      with assms(2) show ?thesis by (rule walkTransition_dangling)
    qed
    show "?P s'" if "?P s" "walkTransition node y s = Inr s'" for y s s'
      using that by (simp add: keys_walkTransition)
  qed
  with Inr show ?thesis by (simp add: walkNode_def)
qed

lemma walk_dangling:
  assumes "allStateNodes machine (stateIds machine) = Inr nodes"
    and "node \<in> set nodes" and "t \<in> set (sn_transitions node)" and "tg \<in> set (target t)"
    and "t_id tg \<notin> sn_id ` set nodes"
  shows "\<exists>e. walk machine = Inl e"
proof -
  let ?P = "\<lambda>s. fst ` set (nodeMap s) = sn_id ` set nodes"
  have "\<exists>e. forEach_err walkNode nodes (initState machine nodes) = Inl e"
  proof (rule forEach_err_fails [where P = ?P and x = node])
    show "node \<in> set nodes" by fact
    show "?P (initState machine nodes)" by (simp add: initState_def keys_initNodeMap)
    show "\<exists>e. walkNode node s = Inl e" if "?P s" for s
      using assms(3,4) by (rule walkNode_dangling) (simp add: that assms(5))
    show "?P s'" if "?P s" "walkNode y s = Inr s'" for y s s'
    proof -
      from that(2) have "map fst (nodeMap s') = map fst (nodeMap s)" by (rule keys_walkNode)
      then have "fst ` set (nodeMap s') = fst ` set (nodeMap s)" by (metis list.set_map)
      with that(1) show ?thesis by simp
    qed
  qed
  then show ?thesis using assms(1) by (auto simp add: walk_def)
qed

text \<open>
  Claim C3.  When a transition of a state node of the machine has a target whose id is
  the id of none of the machine's state nodes, the run ends with an error, whatever else
  the machine contains; it returns no result.
\<close>

theorem dangling_target_aborts:
  assumes "i \<in> set (stateIds machine)" and "getStateNodeById machine i = Some node"
    and "t \<in> set (sn_transitions node)" and "tg \<in> set (target t)"
    and "\<forall>j \<in> set (stateIds machine). \<forall>n. getStateNodeById machine j = Some n \<longrightarrow> sn_id n \<noteq> t_id tg"
  shows "\<exists>e. introspectMachine fuel h machine = Some (Inl e)"
proof (cases "allStateNodes machine (stateIds machine)")
  case (Inl e)
  then show ?thesis by (simp add: introspectMachine_def walk_def)
next
  case (Inr nodes)
  have "node \<in> set nodes" using assms(1,2) by (auto simp add: allStateNodes_set [OF Inr])
  moreover have "t_id tg \<notin> sn_id ` set nodes"
    using assms(5) by (auto simp add: allStateNodes_set [OF Inr])
  ultimately have "\<exists>e. walk machine = Inl e"
    using assms(3,4) by (intro walk_dangling [OF Inr])
  then show ?thesis by (auto simp add: introspectMachine_def)
qed

theorem dangling_target_aborts_witness:
  "getStateNodeById dangling_machine ''elsewhere'' = None \<and>
   (\<exists>e. introspectMachine 2 noHelpers dangling_machine = Some (Inl e))"
proof -
  let ?t = "\<lparr>eventType = ''GO'', target = [\<lparr>t_id = ''elsewhere'', t_invoke = []\<rparr>],
       cond = None, actions_t = []\<rparr>"
  have "\<exists>e. introspectMachine 2 noHelpers dangling_machine = Some (Inl e)"
  proof (rule dangling_target_aborts [where i = "''m.A''" and node = dangling_A and t = ?t
        and tg = "\<lparr>t_id = ''elsewhere'', t_invoke = []\<rparr>"])
    show "''m.A'' \<in> set (stateIds dangling_machine)" by (simp add: dangling_machine_def)
    show "getStateNodeById dangling_machine ''m.A'' = Some dangling_A"
      by (simp add: dangling_machine_def)
    show "?t \<in> set (sn_transitions dangling_A)" by (simp add: dangling_A_def)
    show "\<lparr>t_id = ''elsewhere'', t_invoke = []\<rparr> \<in> set (target ?t)" by simp
    show "\<forall>j \<in> set (stateIds dangling_machine). \<forall>n.
            getStateNodeById dangling_machine j = Some n \<longrightarrow>
            sn_id n \<noteq> t_id \<lparr>t_id = ''elsewhere'', t_invoke = []\<rparr>"
      by (simp add: dangling_machine_def dangling_A_def go_A_def go_B_def go_root_def
            stateNode_def)
  qed
  moreover have "getStateNodeById dangling_machine ''elsewhere'' = None"
    by (simp add: dangling_machine_def)
  ultimately show ?thesis by simp
qed

text \<open>
  Claim C1.  On the machine with states \<open>A\<close> (initial) and \<open>B\<close>, where \<open>GO\<close> leads from
  \<open>A\<close> to \<open>B\<close> and \<open>B\<close> has the entry action \<open>notify\<close> and invokes \<open>fetchData\<close>, the
  report of the actions is the line claimed, with the state value of \<open>B\<close> as its only
  occurrence.  The line of the service \<open>fetchData\<close> has the event \<open>GO\<close>, but two
  occurrence states: the state value of \<open>A\<close>, recorded at the transition with the path
  of the transition's source node, and then the state value of \<open>B\<close>.
\<close>

theorem go_scenario_report:
  "case introspectMachine (Suc (Suc fuel)) h (go_machine opts) of
     Some (Inr r) \<Rightarrow>
       lines (r_services r) =
         [\<lparr>l_name = ''fetchData'', l_required = (\<not> implemented (services_impl opts) ''fetchData''),
           l_events = [''GO''],
           l_states = [[CHR 0x22, CHR ''A'', CHR 0x22], [CHR 0x22, CHR ''B'', CHR 0x22]]\<rparr>] \<and>
       lines (r_actions r) =
         [\<lparr>l_name = ''notify'', l_required = (\<not> implemented (actions_impl opts) ''notify''),
           l_events = [''GO''],
           l_states = [[CHR 0x22, CHR ''B'', CHR 0x22]]\<rparr>]
   | _ \<Rightarrow> False"
  by code_simp


text \<open>
  Claim C2, as stated: on the machine whose root \<open>A\<close> is a leaf with the entry action
  \<open>boot\<close>, the report of the actions has a line for \<open>boot\<close> whose only event is
  \<open>init\<close>.  The report has a single line, and its event is not \<open>init\<close>.
\<close>

theorem boot_scenario_counterexample:
  "case introspectMachine 1 noHelpers (boot_machine nothingImplemented) of
     Some (Inr r) \<Rightarrow>
       map l_name (lines (r_actions r)) = [''boot''] \<and>
       [''init''] \<notin> set (map l_events (lines (r_actions r)))
   | _ \<Rightarrow> False"
  by code_simp

text \<open>
  Claim C2, amended: the line of \<open>boot\<close> is the only line of the actions, and its only
  triggering event is \<open>xstate.init\<close>, the type of XState's initial event.
\<close>

theorem boot_scenario_report:
  "case introspectMachine (Suc fuel) h (boot_machine opts) of
     Some (Inr r) \<Rightarrow>
       lines (r_actions r) =
         [\<lparr>l_name = ''boot'', l_required = (\<not> implemented (actions_impl opts) ''boot''),
           l_events = [''xstate.init''], l_states = [''{}'', ''{}'']\<rparr>]
   | _ \<Rightarrow> False"
  by code_simp

section \<open>Registries only grow\<close>

lemma im_le_refl [simp]: "im_le a a"
  by (simp add: im_le_def)

lemma im_le_trans: "im_le a b \<Longrightarrow> im_le b c \<Longrightarrow> im_le a c"
  unfolding im_le_def by blast

lemma im_le_addItem: "im_le im (addItem n p im)"
  by (simp add: im_le_def)

lemma im_le_addEventToItem: "im_le im (addEventToItem n e p im)"
  by (auto simp add: im_le_def events_of_addEventToItem)

lemma im_le_fold:
  assumes "\<And>x im. im_le im (g x im)"
  shows "im_le im (fold g xs im)"
proof (induction xs arbitrary: im)
  case Nil
  show ?case by simp
next
  case (Cons x xs)
  have "im_le im (g x im)" by (rule assms)
  moreover have "im_le (g x im) (fold g xs (g x im))" by (rule Cons.IH)
  ultimately show ?case by (simp add: im_le_trans)
qed

lemma im_le_addEvent: "im_le im (addEvent e p x im)"
  by (simp add: addEvent_def im_le_addEventToItem split: option.splits)

lemma grows_refl [simp]: "grows s s"
  by (simp add: grows_def)

lemma grows_trans: "grows a b \<Longrightarrow> grows b c \<Longrightarrow> grows a c"
  unfolding grows_def by (blast intro: im_le_trans)

lemma grows_fold:
  assumes "\<And>x s. grows s (g x s)"
  shows "grows s (fold g xs s)"
proof (induction xs arbitrary: s)
  case Nil
  show ?case by simp
next
  case (Cons x xs)
  have "grows s (g x s)" by (rule assms)
  moreover have "grows (g x s) (fold g xs (g x s))" by (rule Cons.IH)
  ultimately show ?case by (simp add: grows_trans)
qed

lemma grows_forEach_err:
  assumes "forEach_err f xs s = Inr s'" and "\<And>x a b. f x a = Inr b \<Longrightarrow> grows a b"
  shows "grows s s'"
proof (rule forEach_err_inv [OF assms(1), where P = "grows s"])
  show "grows s s" by simp
  show "grows s b" if "grows s a" "f x a = Inr b" for x a b
    using that(1) assms(2) [OF that(2)] by (rule grows_trans)
qed

lemma grows_walkInitial: "grows st (walkInitial node st)"
  by (simp add: grows_def walkInitial_def im_le_fold im_le_addEventToItem)

lemma grows_walkOccurrences: "grows st (walkOccurrences node st)"
  by (simp add: grows_def walkOccurrences_def)

lemma grows_walkGuard: "grows st (walkGuard node t st)"
  by (simp add: grows_def walkGuard_def im_le_addEventToItem split: option.splits)

lemma grows_walkTargetInvokes: "grows st (walkTargetInvokes node t st)"
  by (simp add: grows_def walkTargetInvokes_def)

lemma grows_walkCond: "grows st (walkCond node t b st)"
  by (simp add: grows_def walkCond_def Let_def im_le_addEventToItem im_le_fold im_le_addEvent
           split: option.splits CondActions.splits)

lemma grows_walkAction: "grows st (walkAction node t a st)"
proof -
  let ?st1 = "if \<not> xstateRegex_test (a_type a) then
                st\<lparr>actions := addEventToItem (a_type a) (eventType t) (sn_path node) (actions st)\<rparr>
              else st"
  have a: "grows st ?st1" by (simp add: grows_def im_le_addEventToItem)
  have "grows ?st1 (fold (walkCond node t) conds ?st1)" for conds
    by (rule grows_fold) (rule grows_walkCond)
  with a have b: "grows st (fold (walkCond node t) conds ?st1)" for conds
    by (rule grows_trans)
  show ?thesis
  proof (cases "a_type a = ''xstate.choose''")
    case False
    with a show ?thesis by (simp add: walkAction_def Let_def)
  next
    case choose: True
    show ?thesis
    proof (cases "a_conds a")
      case None
      with a choose show ?thesis by (simp add: walkAction_def Let_def)
    next
      case (Some conds)
      with b [of conds] choose show ?thesis by (simp add: walkAction_def Let_def)
    qed
  qed
qed

lemma grows_addChild: "addChild node c st = Inr st' \<Longrightarrow> grows st st'"
  by (auto simp add: addChild_def grows_def split: option.splits)

lemma grows_addSource: "addSource t tg st = Inr st' \<Longrightarrow> grows st st'"
  by (auto simp add: addSource_def grows_def split: option.splits)

lemma grows_addEntrySources: "addEntrySources node a st = Inr st' \<Longrightarrow> grows st st'"
  by (auto simp add: addEntrySources_def grows_def im_le_fold im_le_addEventToItem
           split: option.splits)

lemma walkTransition_Inr:
  assumes "walkTransition node t st = Inr st'"
  obtains st1 where "forEach_err (addSource t) (target t) st = Inr st1"
    and "st' = fold (walkAction node t) (actions_t t)
                 (walkTargetInvokes node t (walkGuard node t st1))"
  using assms by (auto simp add: walkTransition_def split: sum.splits)

lemma walkNode_Inr:
  assumes "walkNode node st = Inr st'"
  obtains st1 where
    "forEach_err (addChild node) (sn_states node) (walkInitial node st) = Inr st1" and
    "forEach_err (walkTransition node) (sn_transitions node) (walkOccurrences node st1) = Inr st'"
  using assms by (auto simp add: walkNode_def split: sum.splits)

lemma grows_walkTransition:
  assumes "walkTransition node t st = Inr st'"
  shows "grows st st'"
proof -
  from assms obtain st1 where a: "forEach_err (addSource t) (target t) st = Inr st1"
    and b: "st' = fold (walkAction node t) (actions_t t)
                    (walkTargetInvokes node t (walkGuard node t st1))"
    by (rule walkTransition_Inr)
  have "grows st st1" by (rule grows_forEach_err [OF a grows_addSource])
  moreover have "grows st1 (walkGuard node t st1)" by (rule grows_walkGuard)
  moreover have "grows (walkGuard node t st1) (walkTargetInvokes node t (walkGuard node t st1))"
    by (rule grows_walkTargetInvokes)
  moreover have "grows (walkTargetInvokes node t (walkGuard node t st1)) st'"
    unfolding b by (rule grows_fold) (rule grows_walkAction)
  ultimately show ?thesis by (blast intro: grows_trans)
qed

lemma grows_walkNode:
  assumes "walkNode node st = Inr st'"
  shows "grows st st'"
proof -
  from assms obtain st1 where
    a: "forEach_err (addChild node) (sn_states node) (walkInitial node st) = Inr st1" and
    b: "forEach_err (walkTransition node) (sn_transitions node) (walkOccurrences node st1) = Inr st'"
    by (rule walkNode_Inr)
  have "grows st (walkInitial node st)" by (rule grows_walkInitial)
  moreover have "grows (walkInitial node st) st1"
    by (rule grows_forEach_err [OF a grows_addChild])
  moreover have "grows st1 (walkOccurrences node st1)" by (rule grows_walkOccurrences)
  moreover have "grows (walkOccurrences node st1) st'"
    by (rule grows_forEach_err [OF b grows_walkTransition])
  ultimately show ?thesis by (blast intro: grows_trans)
qed

lemma grows_walkEntryExit:
  assumes "walkEntryExit node st = Inr st'"
  shows "grows st st'"
proof -
  let ?st1 = "st\<lparr>actions :=
             fold (\<lambda>a im. if xstateRegex_test (a_type a) \<or> a_exec a then im
                           else addItem (a_type a) (sn_path node) im)
               (sn_onExit node @ sn_onEntry node) (actions st)\<rparr>"
  have "im_le (actions st)
          (fold (\<lambda>a im. if xstateRegex_test (a_type a) \<or> a_exec a then im
                           else addItem (a_type a) (sn_path node) im)
             (sn_onExit node @ sn_onEntry node) (actions st))"
    by (rule im_le_fold) (simp add: im_le_addItem)
  then have "grows st ?st1"
    by (simp add: grows_def del: fold_append)
  moreover have "grows ?st1 st'"
    using assms unfolding walkEntryExit_def
    by (rule grows_forEach_err) (rule grows_addEntrySources)
  ultimately show ?thesis by (rule grows_trans)
qed

lemma grows_guard_event:
  "grows s s' \<Longrightarrow> e \<in> set (events_of (guards s) n) \<Longrightarrow> e \<in> set (events_of (guards s') n)"
  unfolding grows_def im_le_def by blast

lemma grows_action_event:
  "grows s s' \<Longrightarrow> e \<in> set (events_of (actions s) n) \<Longrightarrow> e \<in> set (events_of (actions s') n)"
  unfolding grows_def im_le_def by blast

section \<open>The branches of \<^verbatim>\<open>xstate.choose\<close>\<close>

lemma machine_transitions_iff:
  "(node, t) \<in> set (machine_transitions machine) \<longleftrightarrow>
     (\<exists>i \<in> set (stateIds machine). getStateNodeById machine i = Some node \<and>
        t \<in> set (sn_transitions node))"
proof -
  have "(node, t) \<in> set (case getStateNodeById machine i of
                            Some n \<Rightarrow> map (Pair n) (sn_transitions n) | None \<Rightarrow> []) \<longleftrightarrow>
        (getStateNodeById machine i = Some node \<and> t \<in> set (sn_transitions node))" for i
    by (cases "getStateNodeById machine i") auto
  then show ?thesis by (simp add: machine_transitions_def)
qed

lemma mem_case_conds:
  fixes a :: ActionObject
  shows "b \<in> set (case a_conds a of Some conds \<Rightarrow> conds | None \<Rightarrow> []) \<longleftrightarrow>
        (\<exists>conds. a_conds a = Some conds \<and> b \<in> set conds)"
  by (cases "a_conds a") simp_all

lemma mem_choose_conds:
  fixes a :: ActionObject
  shows "b \<in> set (if a_type a = ''xstate.choose'' then
                     (case a_conds a of Some conds \<Rightarrow> conds | None \<Rightarrow> [])
                   else []) \<longleftrightarrow>
        (a_type a = ''xstate.choose'' \<and> (\<exists>conds. a_conds a = Some conds \<and> b \<in> set conds))"
  using mem_case_conds [of b a] by (cases "a_type a = ''xstate.choose''") simp_all

lemma choose_branches_iff:
  "b \<in> set (choose_branches t) \<longleftrightarrow>
     (\<exists>a \<in> set (actions_t t). a_type a = ''xstate.choose'' \<and>
        (\<exists>conds. a_conds a = Some conds \<and> b \<in> set conds))"
  unfolding choose_branches_def set_concat set_map UN_iff bex_simps mem_choose_conds ..

lemma branch_registered_grows:
  "grows s s' \<Longrightarrow> branch_registered e b s \<Longrightarrow> branch_registered e b s'"
  unfolding branch_registered_def
  by (blast intro: grows_guard_event grows_action_event)

lemma fold_addEvent_registers:
  assumes "Some a \<in> set xs"
  shows "e \<in> set (events_of (fold (addEvent e p) xs im) a)"
proof (rule fold_establish [where x = "Some a" and P = "\<lambda>im. e \<in> set (events_of im a)"])
  show "Some a \<in> set xs" by fact
  show "e \<in> set (events_of (addEvent e p (Some a) im) a)" for im
    by (simp add: addEvent_def events_of_addEventToItem)
  show "e \<in> set (events_of (addEvent e p y im) a)" if "e \<in> set (events_of im a)" for y im
    using im_le_addEvent [of im e p y] that unfolding im_le_def by blast
qed

lemma branch_actions_ActionArray:
  "cc_actions b = ActionArray xs \<Longrightarrow> a \<in> set (branch_actions b) \<longleftrightarrow> Some a \<in> set xs"
  by (auto simp add: branch_actions_def split: option.splits)

lemma walkCond_registers: "branch_registered (eventType t) b (walkCond node t b st)"
proof (cases "cc_actions b")
  case (ActionArray xs)
  then show ?thesis
    by (auto simp add: branch_registered_def walkCond_def Let_def events_of_addEventToItem
          branch_actions_ActionArray fold_addEvent_registers split: option.splits)
next
  case (ActionString s)
  then show ?thesis
    by (auto simp add: branch_registered_def walkCond_def Let_def events_of_addEventToItem
          branch_actions_def split: option.splits)
next
  case ActionOther
  then show ?thesis
    by (auto simp add: branch_registered_def walkCond_def Let_def events_of_addEventToItem
          branch_actions_def split: option.splits)
qed

lemma walkAction_registers:
  assumes "a_type a = ''xstate.choose''" and "a_conds a = Some conds" and "b \<in> set conds"
  shows "branch_registered (eventType t) b (walkAction node t a st)"
proof -
  have "branch_registered (eventType t) b (fold (walkCond node t) conds s)" for s
  proof (rule fold_establish [where x = b])
    show "b \<in> set conds" by fact
    show "branch_registered (eventType t) b (walkCond node t b s)" for s
      by (rule walkCond_registers)
    show "branch_registered (eventType t) b (walkCond node t y s)"
      if "branch_registered (eventType t) b s" for y s
      using grows_walkCond that by (rule branch_registered_grows)
  qed
  then show ?thesis using assms(1,2) by (simp add: walkAction_def Let_def)
qed

lemma walkTransition_registers:
  assumes "walkTransition node t st = Inr st'" and "b \<in> set (choose_branches t)"
  shows "branch_registered (eventType t) b st'"
proof -
  from assms(2) obtain a conds where a: "a \<in> set (actions_t t)"
    and choose: "a_type a = ''xstate.choose''" "a_conds a = Some conds" and b: "b \<in> set conds"
    by (auto simp add: choose_branches_iff)
  from assms(1) obtain st1 where
    st': "st' = fold (walkAction node t) (actions_t t)
                  (walkTargetInvokes node t (walkGuard node t st1))"
    by (rule walkTransition_Inr)
  show ?thesis unfolding st'
  proof (rule fold_establish [where x = a])
    show "a \<in> set (actions_t t)" by fact
    show "branch_registered (eventType t) b (walkAction node t a s)" for s
      using choose b by (rule walkAction_registers)
    show "branch_registered (eventType t) b (walkAction node t y s)"
      if "branch_registered (eventType t) b s" for y s
      using grows_walkAction that by (rule branch_registered_grows)
  qed
qed

lemma walkNode_registers:
  assumes "walkNode node st = Inr st'" and "t \<in> set (sn_transitions node)"
    and "b \<in> set (choose_branches t)"
  shows "branch_registered (eventType t) b st'"
proof -
  from assms(1) obtain st1 where
    run: "forEach_err (walkTransition node) (sn_transitions node) (walkOccurrences node st1)
           = Inr st'"
    by (rule walkNode_Inr)
  show ?thesis
  proof (rule forEach_err_establish [OF run assms(2)])
    show "branch_registered (eventType t) b s'" if "walkTransition node t s = Inr s'" for s s'
      using that assms(3) by (rule walkTransition_registers)
    show "branch_registered (eventType t) b s'"
      if "branch_registered (eventType t) b s" "walkTransition node y s = Inr s'" for y s s'
      using grows_walkTransition [OF that(2)] that(1) by (rule branch_registered_grows)
  qed
qed

lemma walk_registers:
  assumes "walk machine = Inr st" and "(node, t) \<in> set (machine_transitions machine)"
    and "b \<in> set (choose_branches t)"
  shows "branch_registered (eventType t) b st"
proof -
  from assms(1) obtain nodes st1 where
    nodes: "allStateNodes machine (stateIds machine) = Inr nodes" and
    pass1: "forEach_err walkNode nodes (initState machine nodes) = Inr st1" and
    pass2: "forEach_err walkEntryExit nodes st1 = Inr st"
    by (rule walk_Inr)
  from assms(2) have node: "node \<in> set nodes" and t: "t \<in> set (sn_transitions node)"
    by (auto simp add: machine_transitions_iff allStateNodes_set [OF nodes])
  have "branch_registered (eventType t) b st1"
  proof (rule forEach_err_establish [OF pass1 node])
    show "branch_registered (eventType t) b s'" if "walkNode node s = Inr s'" for s s'
      using that t assms(3) by (rule walkNode_registers)
    show "branch_registered (eventType t) b s'"
      if "branch_registered (eventType t) b s" "walkNode y s = Inr s'" for y s s'
      using grows_walkNode [OF that(2)] that(1) by (rule branch_registered_grows)
  qed
  moreover have "grows st1 st"
    by (rule grows_forEach_err [OF pass2 grows_walkEntryExit])
  ultimately show ?thesis by (rule branch_registered_grows [rotated])
qed

text \<open>A branch adds no event but the event of its transition.\<close>

lemma fold_addEvent_events:
  "set (events_of (fold (addEvent e p) xs im) n) \<subseteq> insert e (set (events_of im n))"
proof (rule fold_inv [where P = "\<lambda>im'. set (events_of im' n) \<subseteq> insert e (set (events_of im n))"])
  show "set (events_of im n) \<subseteq> insert e (set (events_of im n))" by blast
  show "set (events_of (addEvent e p x im') n) \<subseteq> insert e (set (events_of im n))"
    if "set (events_of im' n) \<subseteq> insert e (set (events_of im n))" for x im'
    using that by (auto simp add: addEvent_def events_of_addEventToItem split: option.splits if_splits)
qed

lemma walkCond_guard_events:
  "set (events_of (guards (walkCond node t b st)) n)
     \<subseteq> insert (eventType t) (set (events_of (guards st) n))"
  by (auto simp add: walkCond_def Let_def events_of_addEventToItem
        split: option.splits CondActions.splits if_splits)

lemma walkCond_action_events:
  "set (events_of (actions (walkCond node t b st)) n)
     \<subseteq> insert (eventType t) (set (events_of (actions st) n))"
proof (cases "cc_actions b")
  case (ActionArray xs)
  then show ?thesis
    using fold_addEvent_events [of "eventType t" "sn_path node" xs "actions st" n]
    by (simp add: walkCond_def Let_def split: option.splits)
next
  case (ActionString s)
  then show ?thesis
    by (auto simp add: walkCond_def Let_def events_of_addEventToItem
          split: option.splits if_splits)
next
  case ActionOther
  then show ?thesis
    by (auto simp add: walkCond_def Let_def split: option.splits)
qed



section \<open>Where the registered guards come from\<close>




lemma guards_walkInitial [simp]: "guards (walkInitial node st) = guards st"
  by (simp add: walkInitial_def)

lemma guards_walkOccurrences [simp]: "guards (walkOccurrences node st) = guards st"
  by (simp add: walkOccurrences_def)

lemma guards_walkTargetInvokes [simp]: "guards (walkTargetInvokes node t st) = guards st"
  by (simp add: walkTargetInvokes_def)






lemma guards_walkGuard:
  "guards (walkGuard node t st) =
     (case cond t of
        Some n \<Rightarrow> if n \<noteq> [] \<and> n \<noteq> ''cond'' then
                    addEventToItem n (eventType t) (sn_path node) (guards st)
                  else guards st
      | None \<Rightarrow> guards st)"
  by (simp add: walkGuard_def split: option.splits)

lemma guards_walkCond:
  "guards (walkCond node t b st) =
     (case cc_cond b of
        Some g \<Rightarrow> addEventToItem g (eventType t) (sn_path node) (guards st)
      | None \<Rightarrow> guards st)"
  by (simp add: walkCond_def Let_def split: option.splits CondActions.splits)








section \<open>The substate tree\<close>

lemma reduce_opt_returns:
  assumes "\<And>x acc. x \<in> set xs \<Longrightarrow> f acc x \<noteq> None"
  shows "reduce_opt f xs acc \<noteq> None"
  using assms
proof (induction xs arbitrary: acc)
  case Nil
  show ?case by simp
next
  case (Cons x xs)
  have "f acc x \<noteq> None" by (rule Cons.prems) simp
  then obtain y where y: "f acc x = Some y" by blast
  show ?case
  proof (cases y)
    case (Inl e)
    with y show ?thesis by simp
  next
    case (Inr acc')
    have "reduce_opt f xs acc' \<noteq> None"
      by (rule Cons.IH) (rule Cons.prems, simp)
    with y Inr show ?thesis by simp
  qed
qed

lemma reduce_opt_mono:
  assumes "reduce_opt f xs acc = Some r"
    and "\<And>x acc y. x \<in> set xs \<Longrightarrow> f acc x = Some y \<Longrightarrow> g acc x = Some y"
  shows "reduce_opt g xs acc = Some r"
  using assms
proof (induction xs arbitrary: acc)
  case Nil
  then show ?case by simp
next
  case (Cons x xs)
  from Cons.prems(1) obtain y where y: "f acc x = Some y"
    by (cases "f acc x") simp_all
  then have gy: "g acc x = Some y" by (rule Cons.prems(2) [rotated]) simp
  show ?case
  proof (cases y)
    case (Inl e)
    with y Cons.prems(1) have "r = Inl e" by simp
    with gy Inl show ?thesis by simp
  next
    case (Inr acc')
    with y Cons.prems(1) have "reduce_opt f xs acc' = Some r" by simp
    then have "reduce_opt g xs acc' = Some r"
      by (rule Cons.IH) (rule Cons.prems(2), simp_all)
    with gy Inr show ?thesis by simp
  qed
qed

text \<open>More nesting depth does not change a result.\<close>

lemma makeSubStateFromNode_Suc:
  "makeSubStateFromNode fuel h node rootNode nm = Some r \<Longrightarrow>
     makeSubStateFromNode (Suc fuel) h node rootNode nm = Some r"
proof (induction fuel arbitrary: node r)
  case 0
  then show ?case by simp
next
  case (Suc fuel)
  let ?step = "\<lambda>k obj child.
       case getStateNodeById rootNode child of
         None \<Rightarrow> Some (Inl (StateNodeNotFound child))
       | Some childNode \<Rightarrow>
           (case makeSubStateFromNode k h childNode rootNode nm of
              None \<Rightarrow> None
            | Some (Inl e) \<Rightarrow> Some (Inl e)
            | Some (Inr sub) \<Rightarrow> Some (Inr (AList.update (sn_key childNode) sub obj)))"
  have step: "?step (Suc fuel) obj child = Some y" if "?step fuel obj child = Some y"
    for obj child y
  proof (cases "getStateNodeById rootNode child")
    case None
    with that show ?thesis by simp
  next
    case (Some childNode)
    with that obtain z where z: "makeSubStateFromNode fuel h childNode rootNode nm = Some z"
      by (cases "makeSubStateFromNode fuel h childNode rootNode nm") simp_all
    from Suc.IH [OF z] have "makeSubStateFromNode (Suc fuel) h childNode rootNode nm = Some z" .
    with that Some z show ?thesis by simp
  qed
  show ?case
  proof (cases "getStateNodeById rootNode (sn_id node)")
    case None
    with Suc.prems show ?thesis by simp
  next
    case (Some stateNode)
    show ?thesis
    proof (cases "map_of nm (sn_id node)")
      case None
      with Some Suc.prems show ?thesis by simp
    next
      case (Some nodeFromMap)
      from Suc.prems \<open>getStateNodeById rootNode (sn_id node) = Some stateNode\<close> Some
      obtain y where y: "reduce_opt (?step fuel) (children nodeFromMap) [] = Some y"
        by (cases "reduce_opt (?step fuel) (children nodeFromMap) []") simp_all
      then have "reduce_opt (?step (Suc fuel)) (children nodeFromMap) [] = Some y"
        by (rule reduce_opt_mono) (rule step)
      with y Suc.prems \<open>getStateNodeById rootNode (sn_id node) = Some stateNode\<close> Some
      show ?thesis by simp
    qed
  qed
qed

lemma makeSubStateFromNode_mono:
  "makeSubStateFromNode fuel h node rootNode nm = Some r \<Longrightarrow>
     makeSubStateFromNode (fuel + k) h node rootNode nm = Some r"
  by (induction k) (simp_all add: makeSubStateFromNode_Suc del: makeSubStateFromNode.simps)

lemma makeSubStateFromNode_unique:
  assumes "makeSubStateFromNode f1 h node rootNode nm = Some r1"
    and "makeSubStateFromNode f2 h node rootNode nm = Some r2"
  shows "r1 = r2"
proof -
  from makeSubStateFromNode_mono [OF assms(1), of f2] makeSubStateFromNode_mono [OF assms(2), of f1]
  show ?thesis by (simp add: add.commute)
qed

text \<open>The nesting depth that the tree builder is given does not influence what a run
  returns.\<close>

lemma introspectMachine_depth_independent:
  assumes "introspectMachine fuel1 h machine = Some run1"
    and "introspectMachine fuel2 h machine = Some run2"
  shows "run1 = run2"
proof (cases "walk machine")
  case (Inl e)
  with assms show ?thesis by (simp add: introspectMachine_def)
next
  case (Inr st)
  from assms(1) Inr obtain s1 where
    s1: "makeSubStateFromNode fuel1 h (m_root machine) machine (nodeMap st) = Some s1"
    by (cases "makeSubStateFromNode fuel1 h (m_root machine) machine (nodeMap st)")
       (simp_all add: introspectMachine_def)
  from assms(2) Inr obtain s2 where
    s2: "makeSubStateFromNode fuel2 h (m_root machine) machine (nodeMap st) = Some s2"
    by (cases "makeSubStateFromNode fuel2 h (m_root machine) machine (nodeMap st)")
       (simp_all add: introspectMachine_def)
  have "s1 = s2" using s1 s2 by (rule makeSubStateFromNode_unique)
  with assms Inr s1 s2 show ?thesis
    by (auto simp add: introspectMachine_def split: sum.splits)
qed

section \<open>The recorded children\<close>

lemma map_of_fold_update:
  "map_of (fold (\<lambda>node nm. AList.update (sn_id node) v nm) nodes nm) x = Some e \<Longrightarrow>
     e = v \<or> map_of nm x = Some e"
proof (induction nodes arbitrary: nm)
  case Nil
  then show ?case by simp
next
  case (Cons n nodes)
  from Cons.IH [of "AList.update (sn_id n) v nm"] Cons.prems
  have "e = v \<or> map_of (AList.update (sn_id n) v nm) x = Some e" by simp
  then show ?case by (auto simp add: AList.update_conv' split: if_splits)
qed

lemma children_declared_init: "children_declared nodes (initNodeMap nodes)"
proof -
  have "children e = []" if "map_of (initNodeMap nodes) x = Some e" for x e
    using map_of_fold_update [OF that [unfolded initNodeMap_def]] by auto
  then show ?thesis unfolding children_declared_def by fastforce
qed

lemma children_declared_addChild:
  assumes "addChild node c st = Inr st'" and "node \<in> set nodes" and "c \<in> set (sn_states node)"
    and "children_declared nodes (nodeMap st)"
  shows "children_declared nodes (nodeMap st')"
proof -
  from assms(1) have nm: "nodeMap st' = AList.map_entry (sn_id node)
      (\<lambda>e. e\<lparr>children := set_add c (children e)\<rparr>) (nodeMap st)"
    by (auto simp add: addChild_def split: option.splits)
  show ?thesis
    unfolding children_declared_def
  proof (intro allI impI ballI)
    fix x e c'
    assume e: "map_of (nodeMap st') x = Some e" and c': "c' \<in> set (children e)"
    show "\<exists>n \<in> set nodes. sn_id n = x \<and> c' \<in> set (sn_states n)"
    proof (cases "x = sn_id node")
      case False
      with e have "map_of (nodeMap st) x = Some e"
        by (simp add: nm AList.map_of_map_entry)
      with assms(4) c' show ?thesis unfolding children_declared_def by blast
    next
      case True
      with e obtain e0 where e0: "map_of (nodeMap st) x = Some e0"
        and "e = e0\<lparr>children := set_add c (children e0)\<rparr>"
        by (cases "map_of (nodeMap st) (sn_id node)")
           (auto simp add: nm AList.map_of_map_entry)
      with c' have "c' = c \<or> c' \<in> set (children e0)" by auto
      then show ?thesis
      proof
        assume "c' = c"
        with assms(2,3) True show ?thesis by blast
      next
        assume "c' \<in> set (children e0)"
        with assms(4) e0 show ?thesis unfolding children_declared_def by blast
      qed
    qed
  qed
qed

lemma children_declared_addSource:
  assumes "addSource t tg st = Inr st'" and "children_declared nodes (nodeMap st)"
  shows "children_declared nodes (nodeMap st')"
proof -
  from assms(1) have nm: "nodeMap st' = AList.map_entry (t_id tg)
      (\<lambda>e. e\<lparr>sources := set_add (eventType t) (sources e)\<rparr>) (nodeMap st)"
    by (auto simp add: addSource_def split: option.splits)
  show ?thesis
    unfolding children_declared_def
  proof (intro allI impI ballI)
    fix x e c
    assume e: "map_of (nodeMap st') x = Some e" and c: "c \<in> set (children e)"
    from e obtain e0 where "map_of (nodeMap st) x = Some e0" and "children e = children e0"
      by (cases "map_of (nodeMap st) x")
         (auto simp add: nm AList.map_of_map_entry split: if_splits)
    with assms(2) c show "\<exists>n \<in> set nodes. sn_id n = x \<and> c \<in> set (sn_states n)"
      unfolding children_declared_def by metis
  qed
qed

lemma children_declared_walkTransition:
  assumes "walkTransition node t st = Inr st'" and "children_declared nodes (nodeMap st)"
  shows "children_declared nodes (nodeMap st')"
proof -
  from assms(1) obtain st1 where a: "forEach_err (addSource t) (target t) st = Inr st1"
    and st': "st' = fold (walkAction node t) (actions_t t)
                    (walkTargetInvokes node t (walkGuard node t st1))"
    by (rule walkTransition_Inr)
  have "children_declared nodes (nodeMap st1)"
    by (rule forEach_err_inv [OF a, where P = "\<lambda>s. children_declared nodes (nodeMap s)"])
       (simp_all add: assms(2) children_declared_addSource)
  moreover have "nodeMap st' = nodeMap st1" unfolding st' by (simp add: nodeMap_fold)
  ultimately show ?thesis by simp
qed

lemma children_declared_walkNode:
  assumes "walkNode node st = Inr st'" and "node \<in> set nodes"
    and "children_declared nodes (nodeMap st)"
  shows "children_declared nodes (nodeMap st')"
proof -
  let ?P = "\<lambda>s. children_declared nodes (nodeMap s)"
  from assms(1) obtain st1 where
    a: "forEach_err (addChild node) (sn_states node) (walkInitial node st) = Inr st1" and
    b: "forEach_err (walkTransition node) (sn_transitions node) (walkOccurrences node st1) = Inr st'"
    by (rule walkNode_Inr)
  have "?P st1"
  proof (rule forEach_err_inv [OF a, where P = ?P])
    show "?P (walkInitial node st)" using assms(3) by simp
    show "?P s'" if "c \<in> set (sn_states node)" "?P s" "addChild node c s = Inr s'" for c s s'
      using that(3) assms(2) that(1,2) by (rule children_declared_addChild)
  qed
  show ?thesis
  proof (rule forEach_err_inv [OF b, where P = ?P])
    show "?P (walkOccurrences node st1)" using \<open>?P st1\<close> by simp
    show "?P s'" if "?P s" "walkTransition node t s = Inr s'" for t s s'
      using that(2,1) by (rule children_declared_walkTransition)
  qed
qed

lemma children_declared_walk:
  assumes "walk machine = Inr st" and "allStateNodes machine (stateIds machine) = Inr nodes"
  shows "children_declared nodes (nodeMap st)"
proof -
  let ?P = "\<lambda>s. children_declared nodes (nodeMap s)"
  from assms obtain st1 where
    pass1: "forEach_err walkNode nodes (initState machine nodes) = Inr st1" and
    pass2: "forEach_err walkEntryExit nodes st1 = Inr st"
    by (auto elim!: walk_Inr)
  have "?P st1"
  proof (rule forEach_err_inv [OF pass1, where P = ?P])
    show "?P (initState machine nodes)" by (simp add: initState_def children_declared_init)
    show "?P s'" if "node \<in> set nodes" "?P s" "walkNode node s = Inr s'" for node s s'
      using that(3,1,2) by (rule children_declared_walkNode)
  qed
  moreover have "nodeMap st = nodeMap st1"
    by (rule forEach_err_inv [OF pass2, where P = "\<lambda>s. nodeMap s = nodeMap st1"])
       (simp_all add: nodeMap_walkEntryExit)
  ultimately show ?thesis by simp
qed

section \<open>Termination of the tree builder\<close>

lemma makeSubStateFromNode_returns:
  assumes desc: "\<And>x e c cn. map_of nm x = Some e \<Longrightarrow> c \<in> set (children e) \<Longrightarrow>
                   getStateNodeById rootNode c = Some cn \<Longrightarrow> rank (sn_id cn) < rank x"
  shows "rank (sn_id node) < fuel \<Longrightarrow> makeSubStateFromNode fuel h node rootNode nm \<noteq> None"
proof (induction fuel arbitrary: node)
  case 0
  then show ?case by simp
next
  case (Suc fuel)
  show ?case
  proof (cases "getStateNodeById rootNode (sn_id node)")
    case None
    then show ?thesis by simp
  next
    case (Some stateNode)
    note stateNode = this
    show ?thesis
    proof (cases "map_of nm (sn_id node)")
      case None
      with stateNode show ?thesis by simp
    next
      case (Some nodeFromMap)
      let ?step = "\<lambda>obj child.
         case getStateNodeById rootNode child of
           None \<Rightarrow> Some (Inl (StateNodeNotFound child))
         | Some childNode \<Rightarrow>
             (case makeSubStateFromNode fuel h childNode rootNode nm of
                None \<Rightarrow> None
              | Some (Inl e) \<Rightarrow> Some (Inl e)
              | Some (Inr sub) \<Rightarrow> Some (Inr (AList.update (sn_key childNode) sub obj)))"
      have "reduce_opt ?step (children nodeFromMap) [] \<noteq> None"
      proof (rule reduce_opt_returns)
        fix child obj
        assume child: "child \<in> set (children nodeFromMap)"
        show "?step obj child \<noteq> None"
        proof (cases "getStateNodeById rootNode child")
          case None
          then show ?thesis by simp
        next
          case (Some childNode)
          from desc [OF \<open>map_of nm (sn_id node) = Some nodeFromMap\<close> child Some] Suc.prems
          have "rank (sn_id childNode) < fuel" by simp
          then have "makeSubStateFromNode fuel h childNode rootNode nm \<noteq> None"
            by (rule Suc.IH)
          with Some show ?thesis by (auto split: sum.splits)
        qed
      qed
      with stateNode Some show ?thesis by (auto split: sum.splits)
    qed
  qed
qed


text \<open>
  Claim C9.  Suppose the ownership hierarchy of the machine descends: some rank of the
  ids gets smaller from every state node to each of its child states, as the lookup
  resolves them.  Nothing is assumed about the transitions.  Then the children that the
  traversal records under an id are child states of a state node with that id, never
  transition targets, and the tree builder returns at every nesting depth above the rank
  of the root; so does the whole run.
\<close>

theorem substate_tree_builder_terminates:
  assumes "\<forall>i \<in> set (stateIds machine). \<forall>n. getStateNodeById machine i = Some n \<longrightarrow>
             (\<forall>c \<in> set (sn_states n). \<forall>cn. getStateNodeById machine c = Some cn \<longrightarrow>
                rank (sn_id cn) < rank (sn_id n))"
  shows "(\<forall>st. walk machine = Inr st \<longrightarrow>
            (\<forall>x e. map_of (nodeMap st) x = Some e \<longrightarrow>
               (\<forall>c \<in> set (children e). \<exists>i \<in> set (stateIds machine). \<exists>n.
                  getStateNodeById machine i = Some n \<and> sn_id n = x \<and> c \<in> set (sn_states n))) \<and>
            makeSubStateFromNode (Suc (rank (sn_id (m_root machine)) + k)) h (m_root machine)
              machine (nodeMap st) \<noteq> None) \<and>
         introspectMachine (Suc (rank (sn_id (m_root machine)) + k)) h machine \<noteq> None"
proof -
  have builder: "(\<forall>x e. map_of (nodeMap st) x = Some e \<longrightarrow>
               (\<forall>c \<in> set (children e). \<exists>i \<in> set (stateIds machine). \<exists>n.
                  getStateNodeById machine i = Some n \<and> sn_id n = x \<and> c \<in> set (sn_states n))) \<and>
            makeSubStateFromNode (Suc (rank (sn_id (m_root machine)) + k)) h (m_root machine)
              machine (nodeMap st) \<noteq> None"
    if w: "walk machine = Inr st" for st
  proof -
    from w obtain nodes where nodes: "allStateNodes machine (stateIds machine) = Inr nodes"
      by (rule walk_Inr)
    have decl: "children_declared nodes (nodeMap st)"
      by (rule children_declared_walk [OF w nodes])
    have owned: "\<exists>i \<in> set (stateIds machine). \<exists>n.
                  getStateNodeById machine i = Some n \<and> sn_id n = x \<and> c \<in> set (sn_states n)"
      if "map_of (nodeMap st) x = Some e" "c \<in> set (children e)" for x e c
    proof -
      from decl that obtain n where "n \<in> set nodes" "sn_id n = x" "c \<in> set (sn_states n)"
        unfolding children_declared_def by blast
      then show ?thesis by (auto simp add: allStateNodes_set [OF nodes])
    qed
    have "makeSubStateFromNode (Suc (rank (sn_id (m_root machine)) + k)) h (m_root machine)
              machine (nodeMap st) \<noteq> None"
    proof (rule makeSubStateFromNode_returns [where rank = rank])
      show "rank (sn_id (m_root machine)) < Suc (rank (sn_id (m_root machine)) + k)" by simp
      show "rank (sn_id cn) < rank x"
        if "map_of (nodeMap st) x = Some e" "c \<in> set (children e)"
          "getStateNodeById machine c = Some cn" for x e c cn
      proof -
        from owned [OF that(1,2)] obtain i n where "i \<in> set (stateIds machine)"
          "getStateNodeById machine i = Some n" "sn_id n = x" "c \<in> set (sn_states n)"
          by blast
        with assms that(3) show ?thesis by blast
      qed
    qed
    with owned show ?thesis by blast
  qed
  have "introspectMachine (Suc (rank (sn_id (m_root machine)) + k)) h machine \<noteq> None"
  proof (cases "walk machine")
    case (Inl e)
    then show ?thesis by (simp add: introspectMachine_def)
  next
    case (Inr st)
    from builder [OF Inr] have
      "makeSubStateFromNode (Suc (rank (sn_id (m_root machine)) + k)) h (m_root machine)
              machine (nodeMap st) \<noteq> None" by (rule conjunct2)
    with Inr show ?thesis
      by (auto simp add: introspectMachine_def split: sum.splits)
  qed
  with builder show ?thesis by blast
qed

theorem substate_tree_builder_terminates_witness:
  "introspectMachine 2 noHelpers loop_machine \<noteq> None \<and>
   (\<exists>st. walk loop_machine = Inr st \<and>
      makeSubStateFromNode 2 noHelpers (m_root loop_machine) loop_machine (nodeMap st) \<noteq> None \<and>
      map (\<lambda>(x, e). (x, sources e, children e)) (nodeMap st) =
        [(''m'', [''UP''], [''m.A'', ''m.B'']), (''m.A'', [''BACK''], []),
         (''m.B'', [''GO'', ''AGAIN''], [])])"
proof -
  let ?rank = "\<lambda>i. if i = ''m'' then 1 else (0::nat)"
  have hierarchy: "\<forall>i \<in> set (stateIds loop_machine). \<forall>n. getStateNodeById loop_machine i = Some n \<longrightarrow>
             (\<forall>c \<in> set (sn_states n). \<forall>cn. getStateNodeById loop_machine c = Some cn \<longrightarrow>
                ?rank (sn_id cn) < ?rank (sn_id n))"
    by (simp add: loop_machine_def loop_B_def go_A_def go_B_def go_root_def stateNode_def)
  have root: "?rank (sn_id (m_root loop_machine)) = 1"
    by (simp add: loop_machine_def go_root_def stateNode_def)
  have "case walk loop_machine of
          Inr st \<Rightarrow> map (\<lambda>(x, e). (x, sources e, children e)) (nodeMap st) =
            [(''m'', [''UP''], [''m.A'', ''m.B'']), (''m.A'', [''BACK''], []),
             (''m.B'', [''GO'', ''AGAIN''], [])]
        | Inl e \<Rightarrow> False"
    by code_simp
  then obtain st where st: "walk loop_machine = Inr st"
    and nm: "map (\<lambda>(x, e). (x, sources e, children e)) (nodeMap st) =
        [(''m'', [''UP''], [''m.A'', ''m.B'']), (''m.A'', [''BACK''], []),
         (''m.B'', [''GO'', ''AGAIN''], [])]"
    by (auto split: sum.splits)
  from substate_tree_builder_terminates [OF hierarchy, of 0 noHelpers]
  have "introspectMachine 2 noHelpers loop_machine \<noteq> None"
    and "makeSubStateFromNode 2 noHelpers (m_root loop_machine) loop_machine (nodeMap st) \<noteq> None"
    using st unfolding root by (simp_all add: numeral_2_eq_2)
  with st nm show ?thesis by (intro conjI exI [of _ st])
qed

section \<open>The events of the registries\<close>

lemma events_within_new: "events_within P (new_ItemMap f)"
  by (simp add: events_within_def events_of_def new_ItemMap_def)

lemma events_within_addItem: "events_within P im \<Longrightarrow> events_within P (addItem n p im)"
  by (simp add: events_within_def)

lemma events_within_addEventToItem:
  "P n e \<Longrightarrow> events_within P im \<Longrightarrow> events_within P (addEventToItem n e p im)"
  by (auto simp add: events_within_def events_of_addEventToItem split: if_splits)

lemma machine_nodes_iff:
  "n \<in> set (machine_nodes machine) \<longleftrightarrow>
     (\<exists>i \<in> set (stateIds machine). getStateNodeById machine i = Some n)"
proof -
  have "n \<in> set (case getStateNodeById machine i of Some node \<Rightarrow> [node] | None \<Rightarrow> []) \<longleftrightarrow>
        getStateNodeById machine i = Some n" for i
    by (cases "getStateNodeById machine i") auto
  then show ?thesis by (simp add: machine_nodes_def)
qed

lemma machine_nodes_allStateNodes:
  "allStateNodes machine (stateIds machine) = Inr nodes \<Longrightarrow> set (machine_nodes machine) = set nodes"
  by (auto simp add: machine_nodes_iff allStateNodes_set)

lemma machine_transitions_nodes:
  "(node, t) \<in> set (machine_transitions machine) \<longleftrightarrow>
     node \<in> set (machine_nodes machine) \<and> t \<in> set (sn_transitions node)"
  by (auto simp add: machine_transitions_iff machine_nodes_iff)

lemma guard_event_declared_cond:
  "(node, t) \<in> set (machine_transitions machine) \<Longrightarrow> cond t = Some g \<Longrightarrow> g \<noteq> [] \<Longrightarrow>
     g \<noteq> ''cond'' \<Longrightarrow> guard_event_declared machine g (eventType t)"
  unfolding guard_event_declared_def list_ex_iff by blast

lemma guard_event_declared_branch:
  "(node, t) \<in> set (machine_transitions machine) \<Longrightarrow> b \<in> set (choose_branches t) \<Longrightarrow>
     cc_cond b = Some g \<Longrightarrow> guard_event_declared machine g (eventType t)"
  unfolding guard_event_declared_def list_ex_iff by blast

lemma leads_into_target:
  "(node, t) \<in> set (machine_transitions machine) \<Longrightarrow> tg \<in> set (target t) \<Longrightarrow>
     leads_into machine (eventType t) (t_id tg)"
  unfolding leads_into_def list_ex_iff by blast

lemma action_event_declared_init:
  "n \<in> set (machine_nodes machine) \<Longrightarrow> is_initial n \<Longrightarrow> act \<in> set (sn_onEntry n) \<Longrightarrow>
     a_type act \<noteq> [] \<Longrightarrow> action_event_declared machine (a_type act) ''xstate.init''"
  unfolding action_event_declared_def list_ex_iff by blast

lemma action_event_declared_action:
  "(node, t) \<in> set (machine_transitions machine) \<Longrightarrow> act \<in> set (actions_t t) \<Longrightarrow>
     \<not> xstateRegex_test (a_type act) \<Longrightarrow>
     action_event_declared machine (a_type act) (eventType t)"
  unfolding action_event_declared_def list_ex_iff by blast

lemma action_event_declared_branch:
  "(node, t) \<in> set (machine_transitions machine) \<Longrightarrow> b \<in> set (choose_branches t) \<Longrightarrow>
     a \<in> set (branch_actions b) \<Longrightarrow> action_event_declared machine a (eventType t)"
  unfolding action_event_declared_def list_ex_iff by blast

lemma action_event_declared_entry:
  "n \<in> set (machine_nodes machine) \<Longrightarrow> act \<in> set (sn_onEntry n) \<Longrightarrow>
     leads_into machine e (sn_id n) \<Longrightarrow> action_event_declared machine (a_type act) e"
  unfolding action_event_declared_def list_ex_iff by blast

lemma actions_walkOccurrences [simp]: "actions (walkOccurrences node st) = actions st"
  by (simp add: walkOccurrences_def)

lemma actions_walkGuard [simp]: "actions (walkGuard node t st) = actions st"
  by (simp add: walkGuard_def split: option.splits)

lemma actions_walkTargetInvokes [simp]: "actions (walkTargetInvokes node t st) = actions st"
  by (simp add: walkTargetInvokes_def)

lemma events_declared_walkInitial:
  assumes "node \<in> set (machine_nodes machine)" and "events_declared machine st"
  shows "events_declared machine (walkInitial node st)"
proof (cases "is_initial node")
  case False
  with assms(2) show ?thesis by (simp add: walkInitial_def)
next
  case True
  let ?P = "events_within (action_event_declared machine)"
  have "?P (fold (\<lambda>a im. if a_type a \<noteq> [] then
                              addEventToItem (a_type a) ''xstate.init'' (sn_path node) im
                            else im)
               (sn_onEntry node) (actions st))"
  proof (rule fold_inv [where P = ?P])
    show "?P (actions st)" using assms(2) by (simp add: events_declared_def)
    show "?P (if a_type a \<noteq> [] then addEventToItem (a_type a) ''xstate.init'' (sn_path node) im
              else im)"
      if "a \<in> set (sn_onEntry node)" "?P im" for a im
      using that action_event_declared_init [OF assms(1) True that(1)]
      by (simp add: events_within_addEventToItem)
  qed
  with assms(2) True show ?thesis
    by (simp add: events_declared_def walkInitial_def)
qed

lemma events_declared_addChild:
  assumes "addChild node c st = Inr st'" and "events_declared machine st"
  shows "events_declared machine st'"
proof -
  from assms(1) have st': "st' = st\<lparr>nodeMap := AList.map_entry (sn_id node)
      (\<lambda>e. e\<lparr>children := set_add c (children e)\<rparr>) (nodeMap st)\<rparr>"
    by (auto simp add: addChild_def split: option.splits)
  have "sources_declared machine (nodeMap st')"
    unfolding sources_declared_def
  proof (intro allI impI ballI)
    fix x en e
    assume en: "map_of (nodeMap st') x = Some en" and e: "e \<in> set (sources en)"
    from en obtain en0 where "map_of (nodeMap st) x = Some en0" and "sources en = sources en0"
      by (cases "map_of (nodeMap st) x")
         (auto simp add: st' AList.map_of_map_entry split: if_splits)
    with assms(2) e show "leads_into machine e x"
      unfolding events_declared_def sources_declared_def by metis
  qed
  with assms(2) show ?thesis by (simp add: events_declared_def st')
qed

lemma events_declared_walkOccurrences:
  "events_declared machine st \<Longrightarrow> events_declared machine (walkOccurrences node st)"
  by (simp add: events_declared_def)

lemma events_declared_addSource:
  assumes "addSource t tg st = Inr st'" and "(node, t) \<in> set (machine_transitions machine)"
    and "tg \<in> set (target t)" and "events_declared machine st"
  shows "events_declared machine st'"
proof -
  from assms(1) have st': "st' = st\<lparr>nodeMap := AList.map_entry (t_id tg)
      (\<lambda>e. e\<lparr>sources := set_add (eventType t) (sources e)\<rparr>) (nodeMap st)\<rparr>"
    by (auto simp add: addSource_def split: option.splits)
  have new: "leads_into machine (eventType t) (t_id tg)"
    using assms(2,3) by (rule leads_into_target)
  have "sources_declared machine (nodeMap st')"
    unfolding sources_declared_def
  proof (intro allI impI ballI)
    fix x en e
    assume en: "map_of (nodeMap st') x = Some en" and e: "e \<in> set (sources en)"
    from en obtain en0 where en0: "map_of (nodeMap st) x = Some en0"
      and src: "sources en = (if x = t_id tg then set_add (eventType t) (sources en0)
                              else sources en0)"
      by (cases "map_of (nodeMap st) x")
         (auto simp add: st' AList.map_of_map_entry split: if_splits)
    from assms(4) en0 have old: "\<forall>e \<in> set (sources en0). leads_into machine e x"
      unfolding events_declared_def sources_declared_def by blast
    show "leads_into machine e x"
    proof (cases "x = t_id tg \<and> e = eventType t")
      case True
      with new show ?thesis by simp
    next
      case False
      with e src have "e \<in> set (sources en0)" by (auto split: if_splits)
      with old show ?thesis by blast
    qed
  qed
  with assms(4) show ?thesis by (simp add: events_declared_def st')
qed

lemma events_declared_walkGuard:
  assumes "(node, t) \<in> set (machine_transitions machine)" and "events_declared machine st"
  shows "events_declared machine (walkGuard node t st)"
proof (cases "cond t")
  case None
  with assms(2) show ?thesis by (simp add: events_declared_def guards_walkGuard)
next
  case (Some n)
  show ?thesis
  proof (cases "n \<noteq> [] \<and> n \<noteq> ''cond''")
    case False
    with assms(2) Some show ?thesis by (auto simp add: events_declared_def guards_walkGuard)
  next
    case True
    then have "guard_event_declared machine n (eventType t)"
      using guard_event_declared_cond [OF assms(1) Some] by simp
    with assms(2) Some True show ?thesis
      by (simp add: events_declared_def guards_walkGuard events_within_addEventToItem)
  qed
qed

lemma events_declared_walkTargetInvokes:
  "events_declared machine st \<Longrightarrow> events_declared machine (walkTargetInvokes node t st)"
  by (simp add: events_declared_def)

lemma fold_addEvent_within:
  assumes "events_within P im" and "\<And>s. Some s \<in> set xs \<Longrightarrow> P s e"
  shows "events_within P (fold (addEvent e p) xs im)"
proof (rule fold_inv [where P = "events_within P"])
  show "events_within P im" by fact
  show "events_within P (addEvent e p x im')" if "x \<in> set xs" "events_within P im'" for x im'
  proof (cases x)
    case None
    with that(2) show ?thesis by (simp add: addEvent_def)
  next
    case (Some s)
    with that(1) assms(2) have "P s e" by simp
    with that(2) Some show ?thesis by (simp add: addEvent_def events_within_addEventToItem)
  qed
qed

lemma actions_walkCond:
  "actions (walkCond node t b st) =
     (case cc_actions b of
        ActionArray condActions \<Rightarrow>
          fold (addEvent (eventType t) (sn_path node)) condActions (actions st)
      | ActionString condAction \<Rightarrow>
          addEventToItem condAction (eventType t) (sn_path node) (actions st)
      | ActionOther \<Rightarrow> actions st)"
  by (simp add: walkCond_def Let_def split: option.splits CondActions.splits)

lemma events_declared_walkCond:
  assumes "(node, t) \<in> set (machine_transitions machine)" and "b \<in> set (choose_branches t)"
    and "events_declared machine st"
  shows "events_declared machine (walkCond node t b st)"
proof -
  have g: "events_within (guard_event_declared machine) (guards (walkCond node t b st))"
  proof (cases "cc_cond b")
    case None
    with assms(3) show ?thesis by (simp add: events_declared_def guards_walkCond)
  next
    case (Some g)
    have "guard_event_declared machine g (eventType t)"
      by (rule guard_event_declared_branch [OF assms(1,2) Some])
    with assms(3) Some show ?thesis
      by (simp add: events_declared_def guards_walkCond events_within_addEventToItem)
  qed
  have old: "events_within (action_event_declared machine) (actions st)"
    using assms(3) by (simp add: events_declared_def)
  have a: "events_within (action_event_declared machine) (actions (walkCond node t b st))"
  proof (cases "cc_actions b")
    case (ActionArray xs)
    have "events_within (action_event_declared machine)
            (fold (addEvent (eventType t) (sn_path node)) xs (actions st))"
    proof (rule fold_addEvent_within [OF old])
      fix s assume "Some s \<in> set xs"
      with ActionArray have "s \<in> set (branch_actions b)"
        by (simp add: branch_actions_ActionArray)
      with assms(1,2) show "action_event_declared machine s (eventType t)"
        by (rule action_event_declared_branch)
    qed
    with ActionArray show ?thesis by (simp add: actions_walkCond)
  next
    case (ActionString s)
    then have "s \<in> set (branch_actions b)" by (simp add: branch_actions_def)
    with assms(1,2) have "action_event_declared machine s (eventType t)"
      by (rule action_event_declared_branch)
    with old ActionString show ?thesis
      by (simp add: actions_walkCond events_within_addEventToItem)
  next
    case ActionOther
    with old show ?thesis by (simp add: actions_walkCond)
  qed
  from g a assms(3) show ?thesis by (simp add: events_declared_def)
qed

lemma events_declared_walkAction:
  assumes "(node, t) \<in> set (machine_transitions machine)" and "a \<in> set (actions_t t)"
    and "events_declared machine st"
  shows "events_declared machine (walkAction node t a st)"
proof -
  let ?st1 = "if \<not> xstateRegex_test (a_type a) then
                st\<lparr>actions := addEventToItem (a_type a) (eventType t) (sn_path node) (actions st)\<rparr>
              else st"
  have st1: "events_declared machine ?st1"
  proof (cases "xstateRegex_test (a_type a)")
    case True
    with assms(3) show ?thesis by simp
  next
    case False
    with assms(1,2) have "action_event_declared machine (a_type a) (eventType t)"
      by (rule action_event_declared_action)
    with assms(3) False show ?thesis
      by (simp add: events_declared_def events_within_addEventToItem)
  qed
  show ?thesis
  proof (cases "a_type a = ''xstate.choose''")
    case False
    with st1 show ?thesis by (simp add: walkAction_def Let_def)
  next
    case choose: True
    show ?thesis
    proof (cases "a_conds a")
      case None
      with st1 choose show ?thesis by (simp add: walkAction_def Let_def)
    next
      case (Some conds)
      have "events_declared machine (fold (walkCond node t) conds ?st1)"
      proof (rule fold_inv [where P = "events_declared machine"])
        show "events_declared machine ?st1" by (rule st1)
        show "events_declared machine (walkCond node t b s)"
          if "b \<in> set conds" "events_declared machine s" for b s
        proof -
          from that(1) assms(2) choose Some have "b \<in> set (choose_branches t)"
            by (auto simp add: choose_branches_iff)
          with assms(1) show ?thesis using that(2) by (rule events_declared_walkCond)
        qed
      qed
      with choose Some show ?thesis by (simp add: walkAction_def Let_def)
    qed
  qed
qed

lemma events_declared_walkTransition:
  assumes "walkTransition node t st = Inr st'"
    and "(node, t) \<in> set (machine_transitions machine)" and "events_declared machine st"
  shows "events_declared machine st'"
proof -
  let ?P = "events_declared machine"
  from assms(1) obtain st1 where a: "forEach_err (addSource t) (target t) st = Inr st1"
    and st': "st' = fold (walkAction node t) (actions_t t)
                    (walkTargetInvokes node t (walkGuard node t st1))"
    by (rule walkTransition_Inr)
  have "?P st1"
  proof (rule forEach_err_inv [OF a, where P = ?P])
    show "?P st" by fact
    show "?P s'" if "tg \<in> set (target t)" "?P s" "addSource t tg s = Inr s'" for tg s s'
      using that(3) assms(2) that(1,2) by (rule events_declared_addSource)
  qed
  then have "?P (walkGuard node t st1)" by (rule events_declared_walkGuard [OF assms(2)])
  then have "?P (walkTargetInvokes node t (walkGuard node t st1))"
    by (rule events_declared_walkTargetInvokes)
  then show ?thesis unfolding st'
    by (rule fold_inv [where P = ?P]) (rule events_declared_walkAction [OF assms(2)])
qed

lemma events_declared_walkNode:
  assumes "walkNode node st = Inr st'" and "node \<in> set (machine_nodes machine)"
    and "events_declared machine st"
  shows "events_declared machine st'"
proof -
  let ?P = "events_declared machine"
  from assms(1) obtain st1 where
    a: "forEach_err (addChild node) (sn_states node) (walkInitial node st) = Inr st1" and
    b: "forEach_err (walkTransition node) (sn_transitions node) (walkOccurrences node st1) = Inr st'"
    by (rule walkNode_Inr)
  have "?P (walkInitial node st)" using assms(2,3) by (rule events_declared_walkInitial)
  have "?P st1"
  proof (rule forEach_err_inv [OF a, where P = ?P])
    show "?P (walkInitial node st)" by fact
    show "?P s'" if "?P s" "addChild node c s = Inr s'" for c s s'
      using that(2,1) by (rule events_declared_addChild)
  qed
  show ?thesis
  proof (rule forEach_err_inv [OF b, where P = ?P])
    show "?P (walkOccurrences node st1)"
      using \<open>?P st1\<close> by (rule events_declared_walkOccurrences)
    show "?P s'" if "t \<in> set (sn_transitions node)" "?P s" "walkTransition node t s = Inr s'"
      for t s s'
    proof -
      from assms(2) that(1) have "(node, t) \<in> set (machine_transitions machine)"
        by (simp add: machine_transitions_nodes)
      with that(3) show ?thesis using that(2) by (rule events_declared_walkTransition)
    qed
  qed
qed

lemma events_declared_addEntrySources:
  assumes "addEntrySources node a st = Inr st'" and "node \<in> set (machine_nodes machine)"
    and "a \<in> set (sn_onEntry node)" and "events_declared machine st"
  shows "events_declared machine st'"
proof -
  from assms(1) obtain en where en: "map_of (nodeMap st) (sn_id node) = Some en"
    and st': "st' = st\<lparr>actions :=
                 fold (\<lambda>source. addEventToItem (a_type a) source (sn_path node)) (sources en)
                   (actions st)\<rparr>"
    by (cases "map_of (nodeMap st) (sn_id node)") (auto simp add: addEntrySources_def)
  let ?P = "events_within (action_event_declared machine)"
  have "?P (fold (\<lambda>source. addEventToItem (a_type a) source (sn_path node)) (sources en)
              (actions st))"
  proof (rule fold_inv [where P = ?P])
    show "?P (actions st)" using assms(4) by (simp add: events_declared_def)
    show "?P (addEventToItem (a_type a) source (sn_path node) im)"
      if "source \<in> set (sources en)" "?P im" for source im
    proof -
      from assms(4) en that(1) have "leads_into machine source (sn_id node)"
        unfolding events_declared_def sources_declared_def by blast
      with assms(2,3) have "action_event_declared machine (a_type a) source"
        by (rule action_event_declared_entry)
      then show ?thesis using that(2) by (rule events_within_addEventToItem)
    qed
  qed
  with assms(4) show ?thesis by (simp add: events_declared_def st')
qed

lemma events_declared_walkEntryExit:
  assumes "walkEntryExit node st = Inr st'" and "node \<in> set (machine_nodes machine)"
    and "events_declared machine st"
  shows "events_declared machine st'"
proof -
  let ?P = "events_declared machine"
  let ?acts = "fold (\<lambda>a im. if xstateRegex_test (a_type a) \<or> a_exec a then im
                           else addItem (a_type a) (sn_path node) im)
               (sn_onExit node @ sn_onEntry node) (actions st)"
  have "events_within (action_event_declared machine) ?acts"
  proof (rule fold_inv [where P = "events_within (action_event_declared machine)"])
    show "events_within (action_event_declared machine) (actions st)"
      using assms(3) by (simp add: events_declared_def)
    show "events_within (action_event_declared machine)
            (if xstateRegex_test (a_type a) \<or> a_exec a then im
             else addItem (a_type a) (sn_path node) im)"
      if "events_within (action_event_declared machine) im" for a im
      using that by (simp add: events_within_addItem)
  qed
  with assms(3) have start: "?P (st\<lparr>actions := ?acts\<rparr>)"
    by (simp add: events_declared_def del: fold_append)
  show ?thesis
  proof (rule forEach_err_inv [OF assms(1) [unfolded walkEntryExit_def], where P = ?P])
    show "?P (st\<lparr>actions := ?acts\<rparr>)" by (rule start)
    show "?P s'" if "a \<in> set (sn_onEntry node)" "?P s" "addEntrySources node a s = Inr s'"
      for a s s'
      using that(3) assms(2) that(1,2) by (rule events_declared_addEntrySources)
  qed
qed

lemma events_declared_walk:
  assumes "walk machine = Inr st"
  shows "events_declared machine st"
proof -
  let ?P = "events_declared machine"
  from assms obtain nodes st1 where
    nodes: "allStateNodes machine (stateIds machine) = Inr nodes" and
    pass1: "forEach_err walkNode nodes (initState machine nodes) = Inr st1" and
    pass2: "forEach_err walkEntryExit nodes st1 = Inr st"
    by (rule walk_Inr)
  have mem: "set (machine_nodes machine) = set nodes"
    by (rule machine_nodes_allStateNodes [OF nodes])
  have init: "?P (initState machine nodes)"
  proof -
    have "en = \<lparr>sources = [], children = []\<rparr>" if "map_of (initNodeMap nodes) x = Some en" for x en
      using map_of_fold_update [OF that [unfolded initNodeMap_def]] by auto
    then have "sources_declared machine (initNodeMap nodes)"
      unfolding sources_declared_def by fastforce
    then show ?thesis
      by (simp add: events_declared_def initState_def events_within_new)
  qed
  have "?P st1"
  proof (rule forEach_err_inv [OF pass1, where P = ?P])
    show "?P (initState machine nodes)" by (rule init)
    show "?P s'" if "node \<in> set nodes" "?P s" "walkNode node s = Inr s'" for node s s'
      using that(3) that(1) [folded mem] that(2) by (rule events_declared_walkNode)
  qed
  show ?thesis
  proof (rule forEach_err_inv [OF pass2, where P = ?P])
    show "?P st1" by fact
    show "?P s'" if "node \<in> set nodes" "?P s" "walkEntryExit node s = Inr s'" for node s s'
      using that(3) that(1) [folded mem] that(2) by (rule events_declared_walkEntryExit)
  qed
qed

text \<open>
  Claim C5.  After the traversal, for every transition \<open>t\<close> of a state node of the
  machine and every branch \<open>b\<close> of an \<^verbatim>\<open>xstate.choose\<close> action of \<open>t\<close> that carries an
  array of branches: the guards registry holds the event of \<open>t\<close> for the branch's guard,
  when that is a string, and the actions registry holds it for every string among the
  branch's actions; and visiting the branch adds at most the event of \<open>t\<close> to what the
  registries hold for any name.  Over the whole run no other event appears: every event
  that the guards registry holds for a name is the event of a transition that carries the
  name as its guard or as a branch guard, and every event that the actions registry
  holds for a name is the event of a transition that carries the name as an action or as
  a branch action, or \<open>xstate.init\<close> for an entry action of an initial state, or an event
  that leads into a state with that entry action.
\<close>

theorem choose_branches_attributed_to_transition:
  assumes "walk machine = Inr st"
  shows "(\<forall>(node, t) \<in> set (machine_transitions machine). \<forall>b \<in> set (choose_branches t).
            (\<forall>g. cc_cond b = Some g \<longrightarrow> eventType t \<in> set (events_of (guards st) g)) \<and>
            (\<forall>a \<in> set (branch_actions b). eventType t \<in> set (events_of (actions st) a)) \<and>
            (\<forall>s n. set (events_of (guards (walkCond node t b s)) n)
                      \<subseteq> insert (eventType t) (set (events_of (guards s) n)) \<and>
                    set (events_of (actions (walkCond node t b s)) n)
                      \<subseteq> insert (eventType t) (set (events_of (actions s) n)))) \<and>
         (\<forall>g e. e \<in> set (events_of (guards st) g) \<longrightarrow> guard_event_declared machine g e) \<and>
         (\<forall>a e. e \<in> set (events_of (actions st) a) \<longrightarrow> action_event_declared machine a e)"
proof -
  have branch: "(\<forall>g. cc_cond b = Some g \<longrightarrow> eventType t \<in> set (events_of (guards st) g)) \<and>
            (\<forall>a \<in> set (branch_actions b). eventType t \<in> set (events_of (actions st) a)) \<and>
            (\<forall>s n. set (events_of (guards (walkCond node t b s)) n)
                      \<subseteq> insert (eventType t) (set (events_of (guards s) n)) \<and>
                    set (events_of (actions (walkCond node t b s)) n)
                      \<subseteq> insert (eventType t) (set (events_of (actions s) n)))"
    if "(node, t) \<in> set (machine_transitions machine)" "b \<in> set (choose_branches t)"
    for node t b
  proof -
    have "branch_registered (eventType t) b st"
      using assms that by (rule walk_registers)
    then have "(\<forall>g. cc_cond b = Some g \<longrightarrow> eventType t \<in> set (events_of (guards st) g)) \<and>
           (\<forall>a \<in> set (branch_actions b). eventType t \<in> set (events_of (actions st) a))"
      by (simp add: branch_registered_def)
    moreover have "set (events_of (guards (walkCond node t b s)) n)
                     \<subseteq> insert (eventType t) (set (events_of (guards s) n)) \<and>
                   set (events_of (actions (walkCond node t b s)) n)
                     \<subseteq> insert (eventType t) (set (events_of (actions s) n))" for s n
      using walkCond_guard_events [of node t b s n] walkCond_action_events [of node t b s n]
      by (rule conjI)
    ultimately show ?thesis by blast
  qed
  have "events_declared machine st" using assms by (rule events_declared_walk)
  then have bounds:
    "\<forall>g e. e \<in> set (events_of (guards st) g) \<longrightarrow> guard_event_declared machine g e"
    "\<forall>a e. e \<in> set (events_of (actions st) a) \<longrightarrow> action_event_declared machine a e"
    by (simp_all add: events_declared_def events_within_def)
  have "\<forall>(node, t) \<in> set (machine_transitions machine). \<forall>b \<in> set (choose_branches t).
            (\<forall>g. cc_cond b = Some g \<longrightarrow> eventType t \<in> set (events_of (guards st) g)) \<and>
            (\<forall>a \<in> set (branch_actions b). eventType t \<in> set (events_of (actions st) a)) \<and>
            (\<forall>s n. set (events_of (guards (walkCond node t b s)) n)
                      \<subseteq> insert (eventType t) (set (events_of (guards s) n)) \<and>
                    set (events_of (actions (walkCond node t b s)) n)
                      \<subseteq> insert (eventType t) (set (events_of (actions s) n)))"
  proof (rule ballI)
    fix x assume x: "x \<in> set (machine_transitions machine)"
    obtain node t where xt: "x = (node, t)" by (cases x)
    show "case x of (node, t) \<Rightarrow> \<forall>b \<in> set (choose_branches t).
            (\<forall>g. cc_cond b = Some g \<longrightarrow> eventType t \<in> set (events_of (guards st) g)) \<and>
            (\<forall>a \<in> set (branch_actions b). eventType t \<in> set (events_of (actions st) a)) \<and>
            (\<forall>s n. set (events_of (guards (walkCond node t b s)) n)
                      \<subseteq> insert (eventType t) (set (events_of (guards s) n)) \<and>
                    set (events_of (actions (walkCond node t b s)) n)
                      \<subseteq> insert (eventType t) (set (events_of (actions s) n)))"
      unfolding xt prod.case
    proof (rule ballI)
      fix b assume "b \<in> set (choose_branches t)"
      with x [unfolded xt] show "(\<forall>g. cc_cond b = Some g \<longrightarrow> eventType t \<in> set (events_of (guards st) g)) \<and>
            (\<forall>a \<in> set (branch_actions b). eventType t \<in> set (events_of (actions st) a)) \<and>
            (\<forall>s n. set (events_of (guards (walkCond node t b s)) n)
                      \<subseteq> insert (eventType t) (set (events_of (guards s) n)) \<and>
                    set (events_of (actions (walkCond node t b s)) n)
                      \<subseteq> insert (eventType t) (set (events_of (actions s) n)))"
        by (rule branch)
    qed
  qed
  with bounds show ?thesis by (intro conjI)
qed

theorem choose_branches_attributed_to_transition_witness:
  "\<exists>st. walk choose_machine = Inr st \<and>
        set (events_of (guards st) ''isValid'') = {''SUBMIT''} \<and>
        set (events_of (guards st) ''cond'') = {''SUBMIT''} \<and>
        set (events_of (actions st) ''save'') = {''SUBMIT''} \<and>
        set (events_of (actions st) ''log.info'') = {''SUBMIT''} \<and>
        set (events_of (actions st) ''track'') = {''SUBMIT''}"
proof -
  let ?b1 = "\<lparr>cc_cond = Some ''cond'', cc_actions = ActionString ''save''\<rparr>"
  let ?b2 = "\<lparr>cc_cond = Some ''isValid'',
              cc_actions = ActionArray [Some ''log.info'', None, Some ''track'']\<rparr>"
  have "case walk choose_machine of Inr st \<Rightarrow> True | Inl e \<Rightarrow> False"
    by code_simp
  then obtain st where st: "walk choose_machine = Inr st"
    by (auto split: sum.splits)
  have ts: "machine_transitions choose_machine = [(choose_idle, submit)]"
    by (simp add: machine_transitions_def choose_machine_def choose_idle_def choose_root_def
          choose_done_def stateNode_def)
  have ns: "machine_nodes choose_machine = [choose_root, choose_idle, choose_done]"
    by (simp add: machine_nodes_def choose_machine_def)
  have bs: "choose_branches submit = [?b1, ?b2]"
    by (simp add: choose_branches_def submit_def named_def)
  have a1: "branch_actions ?b1 = [''save'']" and a2: "branch_actions ?b2 = [''log.info'', ''track'']"
    by (simp_all add: branch_actions_def)
  have no_entry: "sn_onEntry n = []" if "n \<in> set (machine_nodes choose_machine)" for n
    using that unfolding ns
    by (auto simp add: choose_root_def choose_idle_def choose_done_def stateNode_def)
  have guard: "guard_event_declared choose_machine g e \<Longrightarrow> e = ''SUBMIT''" for g e
    by (simp add: guard_event_declared_def ts submit_def)
  have action: "action_event_declared choose_machine a e \<Longrightarrow> e = ''SUBMIT''" for a e
    using no_entry
    by (auto simp add: action_event_declared_def ts list_ex_iff submit_def)
  note run = choose_branches_attributed_to_transition [OF st]
  have m: "(choose_idle, submit) \<in> set (machine_transitions choose_machine)"
    by (simp add: ts)
  have b1: "?b1 \<in> set (choose_branches submit)" and b2: "?b2 \<in> set (choose_branches submit)"
    by (simp_all add: bs)
  have ev: "eventType submit = ''SUBMIT''" by (simp add: submit_def)
  from run have all: "\<forall>(node, t) \<in> set (machine_transitions choose_machine).
          \<forall>b \<in> set (choose_branches t).
            (\<forall>g. cc_cond b = Some g \<longrightarrow> eventType t \<in> set (events_of (guards st) g)) \<and>
            (\<forall>a \<in> set (branch_actions b). eventType t \<in> set (events_of (actions st) a)) \<and>
            (\<forall>s n. set (events_of (guards (walkCond node t b s)) n)
                      \<subseteq> insert (eventType t) (set (events_of (guards s) n)) \<and>
                    set (events_of (actions (walkCond node t b s)) n)
                      \<subseteq> insert (eventType t) (set (events_of (actions s) n)))"
    by (rule conjunct1)
  have both: "\<forall>b \<in> set (choose_branches submit).
            (\<forall>g. cc_cond b = Some g \<longrightarrow> ''SUBMIT'' \<in> set (events_of (guards st) g)) \<and>
            (\<forall>a \<in> set (branch_actions b). ''SUBMIT'' \<in> set (events_of (actions st) a))"
    using bspec [OF all m] unfolding prod.case ev by blast
  from bspec [OF both b1] bspec [OF both b2] have lower:
    "''SUBMIT'' \<in> set (events_of (guards st) ''cond'')"
    "''SUBMIT'' \<in> set (events_of (guards st) ''isValid'')"
    "\<forall>a \<in> set (branch_actions ?b1). ''SUBMIT'' \<in> set (events_of (actions st) a)"
    "\<forall>a \<in> set (branch_actions ?b2). ''SUBMIT'' \<in> set (events_of (actions st) a)"
    by simp_all
  from run have upper_g: "e \<in> set (events_of (guards st) g) \<Longrightarrow> e = ''SUBMIT''" for g e
    using guard by blast
  from run have upper_a: "e \<in> set (events_of (actions st) a) \<Longrightarrow> e = ''SUBMIT''" for a e
    using action by blast
  from lower(3,4) have lower_a:
    "''SUBMIT'' \<in> set (events_of (actions st) ''save'')"
    "''SUBMIT'' \<in> set (events_of (actions st) ''log.info'')"
    "''SUBMIT'' \<in> set (events_of (actions st) ''track'')"
    unfolding a1 a2 by simp_all
  have "set (events_of (guards st) ''isValid'') = {''SUBMIT''}"
    "set (events_of (guards st) ''cond'') = {''SUBMIT''}"
    using lower(1,2) upper_g by blast+
  moreover have "set (events_of (actions st) ''save'') = {''SUBMIT''}"
    "set (events_of (actions st) ''log.info'') = {''SUBMIT''}"
    "set (events_of (actions st) ''track'') = {''SUBMIT''}"
    using lower_a upper_a by blast+
  ultimately show ?thesis using st by (intro exI [of _ st] conjI)
qed

end
